theory Spec2Isabelle
  imports Complex_Main "HOL-Library.AList"
begin

section \<open>Signal weight optimizer: data model\<close>

text \<open>
  The embedding follows \<^verbatim>\<open>python/optimizers/bayesian_optimizer.py\<close> and the
  session endpoint of \<^verbatim>\<open>python/api/optimizer_server.py\<close>.

  Scores and weights are read as real numbers wherever a statement depends only on
  comparisons and on which value is stored where. The normalization step, whose result
  depends on rounding, is modelled in float64 arithmetic as well (\<open>normalize_f64\<close>),
  and the statements about what it computes are made there. Python's unbounded integers
  are \<open>int\<close>. A Python \<^verbatim>\<open>dict\<close> is an association list in
  insertion order whose keys are distinct; storing under a key that is present
  replaces the value in place, which is what \<open>AList.update\<close> does.
\<close>

datatype error = ValueError | ZeroDivisionError | KeyError | ObjectiveError

record SignalBounds =
  signal_id :: string
  min_weight :: real
  max_weight :: real
  initial_weight :: real

type_synonym weights = "(string \<times> real) list"

definition dict_of :: "(string \<times> real) list \<Rightarrow> weights" where
  \<comment> \<open>A dict comprehension: the pairs are stored one after the other.\<close>
  "dict_of kvs = foldl (\<lambda>d kv. AList.update (fst kv) (snd kv) d) [] kvs"

record dimension =
  low :: real
  high :: real
  dim_name :: string

record BayesianOptimizer =
  signal_bounds :: "SignalBounds list"
  signal_ids :: "string list"
  normalize_weights :: bool
  random_state :: int
  dimensions :: "dimension list"
  history :: "(weights \<times> real) list"

subsection \<open>Normalization\<close>

definition normalize_arr :: "real list \<Rightarrow> real list" where
  \<comment> \<open>\<^verbatim>\<open>BayesianOptimizer._normalize\<close> with the array read in exact arithmetic (its
      float64 computation is \<open>normalize_f64\<close>). The fallback divides an array of ones by
      \<^verbatim>\<open>len(weights)\<close>; on the empty array no division takes place.\<close>
  "normalize_arr ws =
     (let total = sum_list ws in
      if total > 0 then map (\<lambda>w. w / total) ws
      else map (\<lambda>_. 1 / real (length ws)) ws)"

definition weights_to_dict :: "BayesianOptimizer \<Rightarrow> real list \<Rightarrow> weights" where
  \<comment> \<open>\<^verbatim>\<open>BayesianOptimizer._weights_to_dict\<close>; \<^verbatim>\<open>zip\<close> stops at the shorter list.\<close>
  "weights_to_dict self ws =
     (let ws' = (if normalize_weights self then normalize_arr ws else ws)
      in dict_of (zip (signal_ids self) ws'))"

subsection \<open>Library functions\<close>

text \<open>
  The numpy reductions the optimizer calls, on lists. \<^verbatim>\<open>np.max\<close> and
  \<^verbatim>\<open>np.argmax\<close> raise \<^verbatim>\<open>ValueError\<close> on an empty sequence;
  \<^verbatim>\<open>np.argmax\<close> returns the first index that holds the maximum.
\<close>

definition np_max :: "real list \<Rightarrow> error + real" where
  "np_max xs = (case xs of [] \<Rightarrow> Inl ValueError | x # rest \<Rightarrow> Inr (foldl max x rest))"

fun argmax_loop :: "real list \<Rightarrow> nat \<Rightarrow> nat \<Rightarrow> real \<Rightarrow> nat" where
  "argmax_loop [] i best_i best = best_i"
| "argmax_loop (x # xs) i best_i best =
     (if x > best then argmax_loop xs (Suc i) i x else argmax_loop xs (Suc i) best_i best)"

definition np_argmax :: "real list \<Rightarrow> error + nat" where
  "np_argmax xs = (case xs of [] \<Rightarrow> Inl ValueError | x # rest \<Rightarrow> Inr (argmax_loop rest 1 0 x))"

fun argmin_loop :: "real list \<Rightarrow> nat \<Rightarrow> nat \<Rightarrow> real \<Rightarrow> nat" where
  "argmin_loop [] i best_i best = best_i"
| "argmin_loop (x # xs) i best_i best =
     (if x < best then argmin_loop xs (Suc i) i x else argmin_loop xs (Suc i) best_i best)"

definition np_argmin :: "real list \<Rightarrow> error + nat" where
  "np_argmin xs = (case xs of [] \<Rightarrow> Inl ValueError | x # rest \<Rightarrow> Inr (argmin_loop rest 1 0 x))"



definition py_slice_from :: "int \<Rightarrow> 'a list \<Rightarrow> 'a list" where
  \<comment> \<open>The slice \<^verbatim>\<open>xs[i:]\<close>: a negative start counts from the end and is clipped
      at the front of the list.\<close>
  "py_slice_from i xs =
     (if i < 0 then drop (nat (int (length xs) + i)) xs else drop (nat i) xs)"

definition lookup :: "weights \<Rightarrow> string \<Rightarrow> error + real" where
  \<comment> \<open>\<^verbatim>\<open>w[signal_id]\<close>.\<close>
  "lookup w k = (case map_of w k of None \<Rightarrow> Inl KeyError | Some v \<Rightarrow> Inr v)"

fun traverse :: "('a \<Rightarrow> error + 'b) \<Rightarrow> 'a list \<Rightarrow> error + 'b list" where
  \<comment> \<open>A list comprehension whose body may raise: the first error ends it.\<close>
  "traverse f [] = Inr []"
| "traverse f (x # xs) =
     (case f x of
        Inl e \<Rightarrow> Inl e
      | Inr y \<Rightarrow> (case traverse f xs of Inl e \<Rightarrow> Inl e | Inr ys \<Rightarrow> Inr (y # ys)))"

text \<open>
  \<^verbatim>\<open>skopt.space.Real\<close>: the constructor of a search-space dimension raises
  \<^verbatim>\<open>ValueError\<close> unless the lower bound is below the upper bound.
\<close>

definition Real_dim :: "real \<Rightarrow> real \<Rightarrow> string \<Rightarrow> error + dimension" where
  "Real_dim lo hi name =
     (if hi \<le> lo then Inl ValueError else Inr \<lparr>low = lo, high = hi, dim_name = name\<rparr>)"

text \<open>
  The global numpy generator is a stream of unit samples, each in \<open>[0, 1)\<close>, read at a
  position that every draw advances. \<^verbatim>\<open>np.random.uniform(low, high)\<close> maps one
  sample affinely.
\<close>

type_synonym rng = "nat \<Rightarrow> real"

definition np_random_uniform :: "rng \<Rightarrow> real \<Rightarrow> real \<Rightarrow> nat \<Rightarrow> real \<times> nat" where
  "np_random_uniform g lo hi pos = (lo + (hi - lo) * g pos, Suc pos)"

definition unit_samples :: "rng \<Rightarrow> bool" where
  "unit_samples g = (\<forall>i. 0 \<le> g i \<and> g i < 1)"

text \<open>
  The Gaussian-process regressor is a parameter: fitted on inputs and scores it either
  fails or gives, for a candidate point, the predicted mean and standard deviation.
  The standard-normal distribution function and density of \<^verbatim>\<open>scipy.stats.norm\<close>
  are parameters too.
\<close>

type_synonym surrogate = "real list list \<Rightarrow> real list \<Rightarrow> error + (real list \<Rightarrow> real \<times> real)"

subsection \<open>The batch optimizer\<close>

definition BayesianOptimizer_init ::
  "SignalBounds list \<Rightarrow> bool \<Rightarrow> int \<Rightarrow> error + BayesianOptimizer" where
  \<comment> \<open>\<^verbatim>\<open>BayesianOptimizer.__init__\<close>\<close>
  "BayesianOptimizer_init bounds nw rs =
     (case traverse (\<lambda>s. Real_dim (min_weight s) (max_weight s) (signal_id s)) bounds of
        Inl e \<Rightarrow> Inl e
      | Inr dims \<Rightarrow>
          Inr \<lparr>signal_bounds = bounds, signal_ids = map signal_id bounds,
               normalize_weights = nw, random_state = rs,
               dimensions = dims, history = []\<rparr>)"

fun random_point :: "rng \<Rightarrow> SignalBounds list \<Rightarrow> nat \<Rightarrow> real list \<times> nat" where
  \<comment> \<open>\<^verbatim>\<open>[np.random.uniform(s.min_weight, s.max_weight) for s in self.signal_bounds]\<close>\<close>
  "random_point g [] pos = ([], pos)"
| "random_point g (s # ss) pos =
     (case np_random_uniform g (min_weight s) (max_weight s) pos of
        (w, pos1) \<Rightarrow> (case random_point g ss pos1 of (ws, pos2) \<Rightarrow> (w # ws, pos2)))"

fun random_suggestions ::
  "BayesianOptimizer \<Rightarrow> rng \<Rightarrow> nat \<Rightarrow> nat \<Rightarrow> weights list \<times> nat" where
  \<comment> \<open>The loop of the branch for fewer than three evaluated points.\<close>
  "random_suggestions self g 0 pos = ([], pos)"
| "random_suggestions self g (Suc n) pos =
     (case random_point g (signal_bounds self) pos of
        (ws, pos1) \<Rightarrow>
          (case random_suggestions self g n pos1 of
             (rest, pos2) \<Rightarrow> (weights_to_dict self ws # rest, pos2)))"

fun random_candidates :: "rng \<Rightarrow> SignalBounds list \<Rightarrow> nat \<Rightarrow> nat \<Rightarrow> real list list \<times> nat" where
  \<comment> \<open>The candidate pool: \<open>n\<close> random points, one after the other.\<close>
  "random_candidates g bounds 0 pos = ([], pos)"
| "random_candidates g bounds (Suc n) pos =
     (case random_point g bounds pos of
        (c, pos1) \<Rightarrow>
          (case random_candidates g bounds n pos1 of (cs, pos2) \<Rightarrow> (c # cs, pos2)))"

definition n_candidates :: nat where
  "n_candidates = 1000"

definition expected_improvement ::
  "(real \<Rightarrow> real) \<Rightarrow> (real \<Rightarrow> real) \<Rightarrow> real \<Rightarrow> real \<times> real \<Rightarrow> real" where
  \<comment> \<open>One component of \<^verbatim>\<open>ei\<close>, from one component of \<^verbatim>\<open>y_pred\<close>
      and \<^verbatim>\<open>y_std\<close>.\<close>
  "expected_improvement norm_cdf norm_pdf best_y p =
     (let y_pred = fst p; y_std = snd p;
          z = (y_pred - best_y) / (y_std + 1 / 10 ^ 8)
      in y_std * (z * norm_cdf z + norm_pdf z))"

fun ei_suggestions ::
  "BayesianOptimizer \<Rightarrow> (real list \<Rightarrow> real \<times> real) \<Rightarrow> (real \<Rightarrow> real) \<Rightarrow> (real \<Rightarrow> real) \<Rightarrow>
   rng \<Rightarrow> real list \<Rightarrow> nat \<Rightarrow> nat \<Rightarrow> error + (weights list \<times> nat)" where
  \<comment> \<open>The loop of the model-guided branch, over the fitted regressor \<open>gp\<close>.\<close>
  "ei_suggestions self gp norm_cdf norm_pdf g y 0 pos = Inr ([], pos)"
| "ei_suggestions self gp norm_cdf norm_pdf g y (Suc n) pos =
     (case random_candidates g (signal_bounds self) n_candidates pos of
        (candidates, pos1) \<Rightarrow>
          (case np_max y of
             Inl e \<Rightarrow> Inl e
           | Inr best_y \<Rightarrow>
               (let ei = map (\<lambda>c. expected_improvement norm_cdf norm_pdf best_y (gp c)) candidates
                in case np_argmax ei of
                     Inl e \<Rightarrow> Inl e
                   | Inr best_idx \<Rightarrow>
                       (case ei_suggestions self gp norm_cdf norm_pdf g y n pos1 of
                          Inl e \<Rightarrow> Inl e
                        | Inr (rest, pos2) \<Rightarrow>
                            Inr (weights_to_dict self (candidates ! best_idx) # rest, pos2)))))"

definition suggest_next ::
  "BayesianOptimizer \<Rightarrow> surrogate \<Rightarrow> (real \<Rightarrow> real) \<Rightarrow> (real \<Rightarrow> real) \<Rightarrow> rng \<Rightarrow>
   (weights \<times> real) list \<Rightarrow> int \<Rightarrow> nat \<Rightarrow> error + (weights list \<times> nat)" where
  \<comment> \<open>\<^verbatim>\<open>BayesianOptimizer.suggest_next\<close>; \<^verbatim>\<open>range(n)\<close> is empty for
      \<open>n \<le> 0\<close>.\<close>
  "suggest_next self fit norm_cdf norm_pdf g evaluated_points n_suggestions pos =
     (if length evaluated_points < 3
      then Inr (random_suggestions self g (nat n_suggestions) pos)
      else
        case traverse (\<lambda>p. traverse (lookup (fst p)) (signal_ids self)) evaluated_points of
          Inl e \<Rightarrow> Inl e
        | Inr X \<Rightarrow>
            (let y = map snd evaluated_points
             in case fit X y of
                  Inl e \<Rightarrow> Inl e
                | Inr gp \<Rightarrow>
                    ei_suggestions self gp norm_cdf norm_pdf g y (nat n_suggestions) pos))"

text \<open>
  \<^verbatim>\<open>skopt.gp_minimize\<close> is represented by what it does with the objective: it
  asks for \<^verbatim>\<open>n_calls\<close> evaluations, each at a point chosen from the observations
  made so far (the strategy \<open>propose\<close>, a parameter that stands for the library with its
  settings), and reports the first observation with the least value.
\<close>

type_synonym proposer = "(real list \<times> real) list \<Rightarrow> real list"

record gp_result =
  res_x :: "real list"
  res_fun :: real

fun gp_calls ::
  "proposer \<Rightarrow> (real list \<Rightarrow> 's \<Rightarrow> error + (real \<times> 's)) \<Rightarrow> nat \<Rightarrow>
   (real list \<times> real) list \<Rightarrow> 's \<Rightarrow> error + ((real list \<times> real) list \<times> 's)" where
  "gp_calls propose func 0 obs st = Inr (obs, st)"
| "gp_calls propose func (Suc n) obs st =
     (let x = propose obs
      in case func x st of
           Inl e \<Rightarrow> Inl e
         | Inr (fx, st') \<Rightarrow> gp_calls propose func n (obs @ [(x, fx)]) st')"

definition gp_minimize ::
  "proposer \<Rightarrow> (real list \<Rightarrow> 's \<Rightarrow> error + (real \<times> 's)) \<Rightarrow> int \<Rightarrow> 's \<Rightarrow>
   error + (gp_result \<times> 's)" where
  "gp_minimize propose func n_calls st =
     (case gp_calls propose func (nat n_calls) [] st of
        Inl e \<Rightarrow> Inl e
      | Inr (obs, st') \<Rightarrow>
          (case np_argmin (map snd obs) of
             Inl e \<Rightarrow> Inl e
           | Inr i \<Rightarrow> Inr (\<lparr>res_x = fst (obs ! i), res_fun = snd (obs ! i)\<rparr>, st')))"

text \<open>
  The three lists that \<^verbatim>\<open>optimize\<close> shares with its closure
  \<^verbatim>\<open>wrapped_objective\<close> are the fields of \<open>run_lists\<close>; the result record
  extends them with the other three fields of the dataclass.
\<close>

record run_lists =
  convergence_history :: "real list"
  all_weights :: "weights list"
  all_scores :: "real list"

record OptimizationResult = run_lists +
  best_weights :: weights
  best_score :: real
  n_iterations :: nat

definition wrapped_objective ::
  "BayesianOptimizer \<Rightarrow> (weights \<Rightarrow> error + real) \<Rightarrow> real list \<Rightarrow> run_lists \<Rightarrow>
   error + (real \<times> run_lists)" where
  \<comment> \<open>An objective that raises ends the run; logging has no effect on the result.\<close>
  "wrapped_objective self objective_fn x st =
     (let weights_dict = weights_to_dict self x
      in case objective_fn weights_dict of
           Inl e \<Rightarrow> Inl e
         | Inr score \<Rightarrow>
             (let st1 = st\<lparr>all_weights := all_weights st @ [weights_dict],
                           all_scores := all_scores st @ [score]\<rparr>;
                  ch = convergence_history st1;
                  st2 = (if length ch = 0 \<or> score > last ch
                         then st1\<lparr>convergence_history := ch @ [score]\<rparr>
                         else st1\<lparr>convergence_history := ch @ [last ch]\<rparr>)
              in Inr (- score, st2)))"

definition optimize ::
  "BayesianOptimizer \<Rightarrow> proposer \<Rightarrow> (weights \<Rightarrow> error + real) \<Rightarrow> int \<Rightarrow>
   error + OptimizationResult" where
  "optimize self propose objective_fn n_calls =
     (case gp_minimize propose (wrapped_objective self objective_fn) n_calls
             \<lparr>convergence_history = [], all_weights = [], all_scores = []\<rparr> of
        Inl e \<Rightarrow> Inl e
      | Inr (result, st) \<Rightarrow>
          Inr \<lparr>convergence_history = convergence_history st,
               all_weights = all_weights st,
               all_scores = all_scores st,
               best_weights = weights_to_dict self (res_x result),
               best_score = - res_fun result,
               n_iterations = length (all_scores st)\<rparr>)"

subsection \<open>The online optimizer\<close>

record OnlineBayesianOptimizer =
  optimizer :: BayesianOptimizer
  window_size :: int
  update_interval :: int
  exploration_rate :: real
  evaluation_history :: "(weights \<times> real) list"
  current_weights :: weights
  evaluation_count :: int

definition OnlineBayesianOptimizer_init ::
  "SignalBounds list \<Rightarrow> int \<Rightarrow> int \<Rightarrow> real \<Rightarrow> error + OnlineBayesianOptimizer" where
  \<comment> \<open>\<^verbatim>\<open>OnlineBayesianOptimizer.__init__\<close>; the inner optimizer takes its defaults.\<close>
  "OnlineBayesianOptimizer_init bounds ws ui er =
     (case BayesianOptimizer_init bounds True 42 of
        Inl e \<Rightarrow> Inl e
      | Inr opt \<Rightarrow>
          Inr \<lparr>optimizer = opt, window_size = ws, update_interval = ui,
               exploration_rate = er, evaluation_history = [],
               current_weights = dict_of (map (\<lambda>s. (signal_id s, initial_weight s)) bounds),
               evaluation_count = 0\<rparr>)"

definition record_evaluation ::
  "OnlineBayesianOptimizer \<Rightarrow> weights \<Rightarrow> real \<Rightarrow> OnlineBayesianOptimizer" where
  "record_evaluation self w score =
     (let self1 = self\<lparr>evaluation_history := evaluation_history self @ [(w, score)],
                       evaluation_count := evaluation_count self + 1\<rparr>
      in if int (length (evaluation_history self1)) > window_size self1
         then self1\<lparr>evaluation_history :=
                      py_slice_from (- window_size self1) (evaluation_history self1)\<rparr>
         else self1)"

definition record_all ::
  "OnlineBayesianOptimizer \<Rightarrow> (weights \<times> real) list \<Rightarrow> OnlineBayesianOptimizer" where
  \<comment> \<open>A sequence of \<^verbatim>\<open>record_evaluation\<close> calls.\<close>
  "record_all self evs = foldl (\<lambda>s ev. record_evaluation s (fst ev) (snd ev)) self evs"

definition should_update :: "OnlineBayesianOptimizer \<Rightarrow> error + bool" where
  \<comment> \<open>Python's \<^verbatim>\<open>%\<close> takes the sign of the divisor, as \<open>mod\<close> on \<open>int\<close> does,
      and raises on a zero divisor.\<close>
  "should_update self =
     (if update_interval self = 0 then Inl ZeroDivisionError
      else Inr (evaluation_count self mod update_interval self = 0))"

definition get_best_weights :: "OnlineBayesianOptimizer \<Rightarrow> error + weights" where
  "get_best_weights self =
     (if evaluation_history self = [] then Inr (current_weights self)
      else
        case np_argmax (map snd (evaluation_history self)) of
          Inl e \<Rightarrow> Inl e
        | Inr best_idx \<Rightarrow> Inr (fst (evaluation_history self ! best_idx)))"




subsection \<open>The session endpoint\<close>

text \<open>
  \<^verbatim>\<open>create_optimizer\<close> of the server: the registry \<^verbatim>\<open>active_optimizers\<close> is
  passed in and returned, the fresh identifier is an argument. The request carries the
  bounds with the fields of \<open>SignalBounds\<close>, copied one by one.
\<close>

type_synonym registry = "string \<rightharpoonup> OnlineBayesianOptimizer"

record create_response =
  optimizer_id :: string
  response_signal_ids :: "string list"
  initial_weights :: weights

definition create_optimizer ::
  "string \<Rightarrow> SignalBounds list \<Rightarrow> registry \<Rightarrow> (error + create_response) \<times> registry" where
  "create_optimizer new_id request_bounds active_optimizers =
     (let bounds = map (\<lambda>b. \<lparr>signal_id = signal_id b, min_weight = min_weight b,
                               max_weight = max_weight b,
                               initial_weight = initial_weight b\<rparr>) request_bounds
      in case OnlineBayesianOptimizer_init bounds 100 10 (1 / 10) of
           Inl e \<Rightarrow> (Inl e, active_optimizers)
         | Inr opt \<Rightarrow>
             (Inr \<lparr>optimizer_id = new_id,
                   response_signal_ids = map signal_id bounds,
                   initial_weights = current_weights opt\<rparr>,
              active_optimizers(new_id \<mapsto> opt)))"

subsection \<open>The normalization step in float64 arithmetic\<close>

text \<open>
  The normalization step is also modelled in the arithmetic it runs in. A float64 value is
  a real number that the format represents, an infinity or NaN; the sign of zero is not
  kept (it decides no comparison here). \<open>fl\<close> rounds a real number to the nearest
  float64, ties to the even significand: the significand has 53 bits, the least exponent
  is \<open>-1022\<close> (below it the spacing stays \<open>2\<^sup>-\<^sup>1\<^sup>0\<^sup>7\<^sup>4\<close>), and a result of
  magnitude \<open>2\<^sup>1\<^sup>0\<^sup>2\<^sup>4\<close> or more is an infinity. Addition and division round the
  exact result once.
\<close>

datatype f64 = Finite real | PInf | NInf | NaN

definition ulp_exp :: "real \<Rightarrow> int" where
  \<comment> \<open>The exponent of the spacing of the float64 values around \<open>q\<close>.\<close>
  "ulp_exp q = max \<lfloor>log 2 \<bar>q\<bar>\<rfloor> (- 1022) - 52"

definition round_even :: "real \<Rightarrow> int" where
  "round_even x =
     (let f = \<lfloor>x\<rfloor>; d = x - of_int f
      in if d < 1 / 2 then f else if 1 / 2 < d then f + 1 else if even f then f else f + 1)"

definition fl :: "real \<Rightarrow> f64" where
  "fl q =
     (if q = 0 then Finite 0
      else
        let u = 2 powr of_int (ulp_exp q);
            r = of_int (round_even (q / u)) * u
        in if 2 ^ 1024 \<le> \<bar>r\<bar> then (if 0 < q then PInf else NInf) else Finite r)"

fun fadd :: "f64 \<Rightarrow> f64 \<Rightarrow> f64" where
  "fadd (Finite a) (Finite b) = fl (a + b)"
| "fadd NaN y = NaN"
| "fadd x NaN = NaN"
| "fadd PInf NInf = NaN"
| "fadd NInf PInf = NaN"
| "fadd PInf y = PInf"
| "fadd x PInf = PInf"
| "fadd NInf y = NInf"
| "fadd x NInf = NInf"

fun fdiv :: "f64 \<Rightarrow> f64 \<Rightarrow> f64" where
  "fdiv (Finite a) (Finite b) =
     (if b = 0 then (if a = 0 then NaN else if 0 < a then PInf else NInf) else fl (a / b))"
| "fdiv (Finite a) PInf = Finite 0"
| "fdiv (Finite a) NInf = Finite 0"
| "fdiv PInf (Finite b) = (if 0 \<le> b then PInf else NInf)"
| "fdiv NInf (Finite b) = (if 0 \<le> b then NInf else PInf)"
| "fdiv x y = NaN"

fun positive :: "f64 \<Rightarrow> bool" where
  \<comment> \<open>\<^verbatim>\<open>total > 0\<close>: false for NaN.\<close>
  "positive (Finite a) = (0 < a)"
| "positive PInf = True"
| "positive NInf = False"
| "positive NaN = False"

definition f64_of_nat :: "nat \<Rightarrow> f64" where
  \<comment> \<open>The conversion of \<^verbatim>\<open>len(weights)\<close> to float64.\<close>
  "f64_of_nat n = fl (real n)"

text \<open>
  The order in which \<^verbatim>\<open>np.sum\<close> adds the components belongs to numpy (it depends
  on the length of the array), so the summation is a parameter of the normalization.
  \<open>np_sum_seq\<close> adds from left to right, starting from 0; on an array of one or two
  components every order gives this sum.
\<close>

definition np_sum_seq :: "f64 list \<Rightarrow> f64" where
  "np_sum_seq xs = foldl fadd (Finite 0) xs"

definition normalize_f64 :: "(f64 list \<Rightarrow> f64) \<Rightarrow> f64 list \<Rightarrow> f64 list" where
  \<comment> \<open>\<^verbatim>\<open>BayesianOptimizer._normalize\<close> on a float64 array.\<close>
  "normalize_f64 np_sum weights =
     (let total = np_sum weights
      in if positive total then map (\<lambda>w. fdiv w total) weights
         else map (\<lambda>_. fdiv (Finite 1) (f64_of_nat (length weights))) weights)"

text \<open>
  A value of the format (a fixed point of the rounding), a finite value, and the real
  number a finite value stands for.
\<close>

fun is_f64 :: "f64 \<Rightarrow> bool" where
  "is_f64 (Finite r) = (fl r = Finite r)"
| "is_f64 x = True"

fun is_finite :: "f64 \<Rightarrow> bool" where
  "is_finite (Finite r) = True"
| "is_finite x = False"

fun val :: "f64 \<Rightarrow> real" where
  "val (Finite r) = r"
| "val x = 0"

subsection \<open>Notions used in the statements\<close>

text \<open>
  The running maximum of a list of scores, and the invariant that ties the convergence
  history of a run to its scores.
\<close>

definition running_max :: "real list \<Rightarrow> real list" where
  "running_max xs = map (\<lambda>i. Max (set (take (Suc i) xs))) [0..<length xs]"

definition tracked :: "run_lists \<Rightarrow> bool" where
  "tracked st = (convergence_history st = running_max (all_scores st))"

text \<open>A point, and a dictionary, whose values lie within the bounds of their signals.\<close>

definition raw_within :: "SignalBounds list \<Rightarrow> real list \<Rightarrow> bool" where
  "raw_within bounds ws =
     list_all2 (\<lambda>s w. min_weight s \<le> w \<and> w \<le> max_weight s) bounds ws"


text \<open>
  The choice made from one candidate pool: \<open>sug\<close> is the dictionary of the first
  candidate whose expected improvement is the maximum over the pool.
\<close>

definition first_ei_maximum ::
  "BayesianOptimizer \<Rightarrow> (real list \<Rightarrow> real \<times> real) \<Rightarrow> (real \<Rightarrow> real) \<Rightarrow> (real \<Rightarrow> real) \<Rightarrow>
   real \<Rightarrow> real list list \<Rightarrow> weights \<Rightarrow> bool" where
  "first_ei_maximum self gp norm_cdf norm_pdf best_y pool sug =
     (\<exists>i<length pool.
        sug = weights_to_dict self (pool ! i)
        \<and> (\<forall>j<length pool.
              expected_improvement norm_cdf norm_pdf best_y (gp (pool ! j))
              \<le> expected_improvement norm_cdf norm_pdf best_y (gp (pool ! i)))
        \<and> (\<forall>j<i.
              expected_improvement norm_cdf norm_pdf best_y (gp (pool ! j))
              < expected_improvement norm_cdf norm_pdf best_y (gp (pool ! i))))"

subsection \<open>Concrete inputs\<close>

text \<open>Two signals \<open>A\<close> and \<open>B\<close>, each with bounds \<open>[0, 1]\<close> and initial weight \<open>1/2\<close>.\<close>

definition bounds_ab :: "SignalBounds list" where
  "bounds_ab =
     [\<lparr>signal_id = ''A'', min_weight = 0, max_weight = 1, initial_weight = 1 / 2\<rparr>,
      \<lparr>signal_id = ''B'', min_weight = 0, max_weight = 1, initial_weight = 1 / 2\<rparr>]"

definition opt_ab :: BayesianOptimizer where
  \<comment> \<open>What \<open>BayesianOptimizer_init bounds_ab True 42\<close> returns.\<close>
  "opt_ab =
     \<lparr>signal_bounds = bounds_ab, signal_ids = [''A'', ''B''], normalize_weights = True,
      random_state = 42,
      dimensions = [\<lparr>low = 0, high = 1, dim_name = ''A''\<rparr>,
                    \<lparr>low = 0, high = 1, dim_name = ''B''\<rparr>],
      history = []\<rparr>"

definition online_ab :: OnlineBayesianOptimizer where
  \<comment> \<open>What \<open>OnlineBayesianOptimizer_init bounds_ab 5 2 (1 / 10)\<close> returns.\<close>
  "online_ab =
     \<lparr>optimizer = opt_ab, window_size = 5, update_interval = 2, exploration_rate = 1 / 10,
      evaluation_history = [], current_weights = [(''A'', 1 / 2), (''B'', 1 / 2)],
      evaluation_count = 0\<rparr>"

text \<open>One signal whose initial weight lies outside its bounds.\<close>

definition bounds_outside :: "SignalBounds list" where
  "bounds_outside =
     [\<lparr>signal_id = ''A'', min_weight = 0, max_weight = 1, initial_weight = 5\<rparr>]"



text \<open>Three evaluated points for the signals \<open>A\<close> and \<open>B\<close>.\<close>

definition points_ab :: "(weights \<times> real) list" where
  "points_ab =
     [([(''A'', 1 / 5), (''B'', 4 / 5)], 1), ([(''A'', 4 / 5), (''B'', 1 / 5)], 3),
      ([(''A'', 1 / 2), (''B'', 1 / 2)], 2)]"

text \<open>
  A proposal strategy and an objective for a batch run, a generator whose samples are all
  \<open>1/2\<close>, a regressor that predicts mean and deviation 0 everywhere, and a constant
  function.
\<close>

definition propose_ab :: proposer where
  "propose_ab obs = (if length obs = 1 then [1, 3] else [1, 1])"

definition objective_a :: "weights \<Rightarrow> error + real" where
  "objective_a w = lookup w ''A''"

definition half_rng :: rng where
  "half_rng i = 1 / 2"

definition flat_fit :: surrogate where
  "flat_fit X y = Inr (\<lambda>c. (0, 0))"

definition zero_fn :: "real \<Rightarrow> real" where
  "zero_fn z = 0"

section \<open>Properties\<close>

subsection \<open>Dictionaries\<close>





subsection \<open>Rounding to float64\<close>

lemma round_even_of_int [simp]: "round_even (of_int k) = k"
  by (simp add: round_even_def)

lemma ulp_exp_eq:
  assumes "2 powr of_int e \<le> \<bar>q\<bar>" and "\<bar>q\<bar> < 2 powr of_int (e + 1)" and "- 1022 \<le> e"
  shows "ulp_exp q = e - 52"
proof -
  have "(0 :: real) < 2 powr of_int e" by simp
  then have "0 < \<bar>q\<bar>" using assms(1) by linarith
  then have "\<lfloor>log 2 \<bar>q\<bar>\<rfloor> = e"
    using assms(1,2) floor_log_eq_powr_iff [of "\<bar>q\<bar>" 2 e] by simp
  then show ?thesis using assms(3) by (simp add: ulp_exp_def)
qed

lemma fl_eval:
  assumes "2 powr of_int e \<le> \<bar>q\<bar>" and "\<bar>q\<bar> < 2 powr of_int (e + 1)" and "- 1022 \<le> e"
    and "of_int (round_even (q / 2 powr of_int (e - 52))) * 2 powr of_int (e - 52) = r"
    and "\<bar>r\<bar> < 2 ^ 1024"
  shows "fl q = Finite r"
proof -
  have "(0 :: real) < 2 powr of_int e" by simp
  then have "0 < \<bar>q\<bar>" using assms(1) by linarith
  then have "q \<noteq> 0" by auto
  then show ?thesis
    using assms(4,5) ulp_exp_eq [OF assms(1,2,3)] by (simp add: fl_def Let_def)
qed

lemma round_even_close: "\<bar>of_int (round_even x) - x\<bar> \<le> 1 / 2"
  by (auto simp add: round_even_def Let_def)

lemma round_even_bounds: "\<lfloor>x\<rfloor> \<le> round_even x \<and> round_even x \<le> \<lfloor>x\<rfloor> + 1"
  by (simp add: round_even_def Let_def)

lemma floor_log2_bounds:
  assumes "0 < x"
  shows "2 powr of_int \<lfloor>log 2 x\<rfloor> \<le> x" and "x < 2 powr of_int (\<lfloor>log 2 x\<rfloor> + 1)"
  using floor_log_eq_powr_iff [of x 2 "\<lfloor>log 2 x\<rfloor>"] assms by simp_all

lemma ulp_exp_ge: "- 1074 \<le> ulp_exp q"
  by (simp add: ulp_exp_def)

lemma below_next_binade:
  assumes "q \<noteq> 0"
  shows "\<bar>q\<bar> < 2 powr of_int (ulp_exp q + 53)"
proof -
  have "\<bar>q\<bar> < 2 powr of_int (\<lfloor>log 2 \<bar>q\<bar>\<rfloor> + 1)"
    using floor_log2_bounds(2) [of "\<bar>q\<bar>"] assms by simp
  also have "\<dots> \<le> 2 powr of_int (ulp_exp q + 53)"
    by (simp add: ulp_exp_def)
  finally show ?thesis .
qed

lemma fl_exact:
  assumes "q / 2 powr of_int (ulp_exp q) = of_int j" and "\<bar>q\<bar> < 2 ^ 1024"
  shows "fl q = Finite q"
proof (cases "q = 0")
  case True
  then show ?thesis by (simp add: fl_def)
next
  case False
  have "of_int j * 2 powr of_int (ulp_exp q) = q"
    using assms(1) by (simp add: field_simps)
  then show ?thesis using False assms by (simp add: fl_def Let_def)
qed

lemma fl_error:
  assumes "\<bar>q\<bar> \<le> 2 ^ 1023"
  shows "\<exists>r. fl q = Finite r \<and> \<bar>r - q\<bar> \<le> \<bar>q\<bar> / 2 ^ 53 + 1 / 2 ^ 1075"
proof (cases "q = 0")
  case True
  then show ?thesis by (simp add: fl_def)
next
  case False
  define u :: real where "u = 2 powr of_int (ulp_exp q)"
  define r where "r = of_int (round_even (q / u)) * u"
  have upos: "0 < u" by (simp add: u_def)
  have "r - q = (of_int (round_even (q / u)) - q / u) * u"
    using upos by (simp add: r_def field_simps)
  then have "\<bar>r - q\<bar> = \<bar>of_int (round_even (q / u)) - q / u\<bar> * u"
    using upos by (simp add: abs_mult)
  also have "\<dots> \<le> (1 / 2) * u"
    using round_even_close [of "q / u"] upos by (intro mult_right_mono) simp_all
  finally have close: "\<bar>r - q\<bar> \<le> u / 2" by simp
  have ubound: "u / 2 \<le> \<bar>q\<bar> / 2 ^ 53 + 1 / 2 ^ 1075"
  proof (cases "- 1022 \<le> \<lfloor>log 2 \<bar>q\<bar>\<rfloor>")
    case True
    then have "ulp_exp q = \<lfloor>log 2 \<bar>q\<bar>\<rfloor> - 52" by (simp add: ulp_exp_def)
    then have "u = 2 powr of_int \<lfloor>log 2 \<bar>q\<bar>\<rfloor> / 2 ^ 52"
      by (simp add: u_def powr_diff)
    also have "\<dots> \<le> \<bar>q\<bar> / 2 ^ 52"
      using floor_log2_bounds(1) [of "\<bar>q\<bar>"] False by (intro divide_right_mono) simp_all
    finally have "u / 2 \<le> \<bar>q\<bar> / 2 ^ 53" by simp
    moreover have "(0 :: real) \<le> 1 / 2 ^ 1075" by simp
    ultimately show ?thesis by linarith
  next
    case False
    then have "ulp_exp q = - 1074" by (simp add: ulp_exp_def)
    then have "u = 1 / 2 ^ 1074" by (simp add: u_def powr_minus_divide)
    then have "u / 2 = 1 / 2 ^ 1075" by simp
    then show ?thesis by simp
  qed
  have "\<bar>r\<bar> \<le> \<bar>q\<bar> + \<bar>r - q\<bar>" by simp
  also have "\<dots> \<le> \<bar>q\<bar> + (\<bar>q\<bar> / 2 ^ 53 + 1 / 2 ^ 1075)" using close ubound by simp
  also have "\<dots> \<le> 2 ^ 1023 + (2 ^ 1023 / 2 ^ 53 + 1 / 2 ^ 1075)"
    using assms by (intro add_mono divide_right_mono) simp_all
  also have "\<dots> < (2 :: real) ^ 1024" by simp
  finally have "\<not> 2 ^ 1024 \<le> \<bar>r\<bar>" by simp
  then have "fl q = Finite r"
    using False by (simp add: fl_def Let_def r_def u_def)
  then show ?thesis using close ubound by auto
qed

lemma round_even_abs_le:
  assumes "\<bar>x\<bar> < of_int n"
  shows "\<bar>round_even x\<bar> \<le> n"
proof -
  have "\<lfloor>x\<rfloor> < n" using assms by (simp add: floor_less_iff abs_less_iff)
  moreover have "- n \<le> \<lfloor>x\<rfloor>" using assms by (simp add: le_floor_iff abs_less_iff)
  ultimately show ?thesis using round_even_bounds [of x] by linarith
qed

lemma ulp_exp_mono_bound:
  assumes "r \<noteq> 0" and "\<bar>r\<bar> < 2 powr of_int (p + 53)" and "- 1074 \<le> p"
  shows "ulp_exp r \<le> p"
proof -
  have "2 powr of_int \<lfloor>log 2 \<bar>r\<bar>\<rfloor> \<le> \<bar>r\<bar>"
    using floor_log2_bounds(1) [of "\<bar>r\<bar>"] assms(1) by simp
  then have "(2 :: real) powr of_int \<lfloor>log 2 \<bar>r\<bar>\<rfloor> < 2 powr of_int (p + 53)"
    using assms(2) by linarith
  then have "\<lfloor>log 2 \<bar>r\<bar>\<rfloor> < p + 53" by simp
  then show ?thesis using assms(3) by (simp add: ulp_exp_def)
qed

lemma fl_idempotent:
  assumes "fl q = Finite r"
  shows "fl r = Finite r"
proof (cases "r = 0")
  case True
  then show ?thesis by (simp add: fl_def)
next
  case False
  then have q0: "q \<noteq> 0" using assms by (auto simp add: fl_def)
  define p where "p = ulp_exp q"
  define u :: real where "u = 2 powr of_int p"
  define k where "k = round_even (q / u)"
  have upos: "0 < u" by (simp add: u_def)
  have r: "r = of_int k * u" and fin: "\<bar>r\<bar> < 2 ^ 1024"
    using assms q0 by (auto simp add: fl_def Let_def p_def u_def k_def split: if_splits)
  have pge: "- 1074 \<le> p" by (simp add: p_def ulp_exp_ge)
  have "\<bar>q\<bar> < 2 powr of_int (p + 53)" using below_next_binade [OF q0] by (simp add: p_def)
  also have "\<dots> = u * 2 ^ 53" by (simp add: u_def powr_add)
  finally have "\<bar>q / u\<bar> < of_int (2 ^ 53)" using upos by (simp add: abs_divide field_simps)
  then have kle: "\<bar>k\<bar> \<le> 2 ^ 53" unfolding k_def by (rule round_even_abs_le)
  have "\<exists>j. r / 2 powr of_int (ulp_exp r) = of_int j"
  proof (cases "\<bar>k\<bar> = 2 ^ 53")
    case True
    then have absr: "\<bar>r\<bar> = 2 powr of_int (p + 53)"
      using upos by (simp add: r abs_mult u_def powr_add)
    have "\<lfloor>log 2 \<bar>r\<bar>\<rfloor> = p + 53"
      unfolding absr by simp
    then have "ulp_exp r = p + 1" using pge by (simp add: ulp_exp_def)
    then have "r / 2 powr of_int (ulp_exp r) = of_int k / 2"
      using upos by (simp add: r u_def powr_add)
    moreover have "k = 2 ^ 53 \<or> k = - (2 ^ 53)" using True by linarith
    then have "real_of_int k / 2 = of_int (k div 2)" by auto
    ultimately have "r / 2 powr of_int (ulp_exp r) = of_int (k div 2)"
      by simp
    then show ?thesis by blast
  next
    case False
    then have "\<bar>k\<bar> < 2 ^ 53" using kle by simp
    then have "\<bar>real_of_int k\<bar> < 2 ^ 53"
      by (metis of_int_abs of_int_less_numeral_power_cancel_iff)
    then have "\<bar>r\<bar> < 2 ^ 53 * u" using upos by (simp add: r abs_mult)
    also have "\<dots> = 2 powr of_int (p + 53)" by (simp add: u_def powr_add)
    finally have "ulp_exp r \<le> p" using \<open>r \<noteq> 0\<close> pge by (intro ulp_exp_mono_bound) simp_all
    define pr where "pr = ulp_exp r"
    have "pr \<le> p" using \<open>ulp_exp r \<le> p\<close> by (simp add: pr_def)
    then obtain d where d: "p = pr + int d"
      using zle_iff_zadd by blast
    have "u = 2 powr of_int pr * 2 ^ d"
      by (simp add: u_def d powr_add powr_realpow)
    then have "of_int k * u / 2 powr of_int pr = of_int k * 2 ^ d"
      by simp
    also have "\<dots> = of_int (k * 2 ^ d)" by simp
    finally show ?thesis unfolding pr_def r by blast
  qed
  then show ?thesis using fin fl_exact by blast
qed

lemma fl_zero: "fl 0 = Finite 0"
  by (simp add: fl_def)

lemma is_f64_fl: "is_f64 (fl q)"
  by (cases "fl q") (simp_all add: fl_idempotent)

lemma is_f64_fdiv: "is_f64 (fdiv x y)"
  by (cases x; cases y) (simp_all add: is_f64_fl fl_zero)

lemma is_f64_fadd: "is_f64 (fadd x y)"
  by (cases x; cases y) (simp_all add: is_f64_fl)

lemma fdiv_one: "is_f64 w \<Longrightarrow> fdiv w (Finite 1) = w"
  by (cases w) simp_all

lemma normalize_f64_is_f64: "list_all is_f64 (normalize_f64 np_sum ws)"
  by (simp add: normalize_f64_def Let_def list_all_iff is_f64_fdiv)

lemma f64_of_nat_exact:
  assumes "n < 2 ^ 53"
  shows "f64_of_nat n = Finite (real n)"
proof (cases "n = 0")
  case True
  then show ?thesis by (simp add: f64_of_nat_def fl_zero)
next
  case False
  have "real n < 2 ^ 53" using assms by (metis of_nat_less_numeral_power_cancel_iff)
  then have lt: "\<bar>real n\<bar> < 2 powr of_int (0 + 53)" by simp
  have "ulp_exp (real n) \<le> 0"
    using False by (intro ulp_exp_mono_bound [OF _ lt]) simp_all
  then obtain d where d: "ulp_exp (real n) = - int d"
    by (metis add.inverse_inverse nonneg_int_cases neg_0_le_iff_le)
  have "real n / 2 powr of_int (ulp_exp (real n)) = of_int (int n * 2 ^ d)"
    by (simp add: d powr_minus_divide powr_realpow)
  moreover have "\<bar>real n\<bar> < 2 ^ 1024"
  proof -
    have "(2 :: real) ^ 53 \<le> 2 ^ 1024" by simp
    then show ?thesis using \<open>real n < 2 ^ 53\<close> by simp
  qed
  ultimately show ?thesis unfolding f64_of_nat_def by (rule fl_exact)
qed

lemma uniform_sum_close:
  assumes "0 < n" and "n < 2 ^ 53"
  shows "\<exists>r. fdiv (Finite 1) (f64_of_nat n) = Finite r \<and> \<bar>real n * r - 1\<bar> \<le> 1 / 10 ^ 9"
proof -
  have npos: "0 < real n" using assms(1) by simp
  have nlt: "real n < 2 ^ 53" using assms(2) by (metis of_nat_less_numeral_power_cancel_iff)
  have "\<bar>1 / real n\<bar> \<le> 2 ^ 1023"
    using assms(1) by (simp add: field_simps)
  then obtain r where r: "fl (1 / real n) = Finite r"
      "\<bar>r - 1 / real n\<bar> \<le> \<bar>1 / real n\<bar> / 2 ^ 53 + 1 / 2 ^ 1075"
    using fl_error by blast
  have "real n * r - 1 = real n * (r - 1 / real n)" using npos by (simp add: field_simps)
  then have "\<bar>real n * r - 1\<bar> = real n * \<bar>r - 1 / real n\<bar>"
    using npos by (simp add: abs_mult)
  also have "\<dots> \<le> real n * (\<bar>1 / real n\<bar> / 2 ^ 53 + 1 / 2 ^ 1075)"
    using r(2) npos by (intro mult_left_mono) simp_all
  also have "\<dots> = 1 / 2 ^ 53 + real n / 2 ^ 1075"
    using npos by (simp add: field_simps)
  also have "\<dots> \<le> 1 / 2 ^ 53 + 2 ^ 53 / 2 ^ 1075"
    using nlt by (intro add_mono divide_right_mono) simp_all
  also have "\<dots> \<le> 1 / 10 ^ 9" by simp
  finally have "\<bar>real n * r - 1\<bar> \<le> 1 / 10 ^ 9" .
  then show ?thesis
    using r(1) npos by (simp add: f64_of_nat_exact [OF assms(2)])
qed

lemma np_sum_seq_pair: "np_sum_seq [Finite a, Finite b] = fadd (fl a) (Finite b)"
  by (simp add: np_sum_seq_def)

lemma fl_dyadic:
  "fl 1 = Finite 1" "fl 2 = Finite 2" "fl 4 = Finite 4" "fl (1 / 2) = Finite (1 / 2)"
  "fl (1 / 4) = Finite (1 / 4)" "fl (3 / 4) = Finite (3 / 4)" "fl (- 1) = Finite (- 1)"
proof -
  show "fl 1 = Finite 1"
    by (rule fl_eval [of 0]) (simp_all add: powr_minus_divide round_even_def)
  show "fl 2 = Finite 2"
    by (rule fl_eval [of 1]) (simp_all add: powr_minus_divide round_even_def)
  show "fl 4 = Finite 4"
    by (rule fl_eval [of 2]) (simp_all add: powr_minus_divide round_even_def)
  show "fl (1 / 2) = Finite (1 / 2)"
    by (rule fl_eval [of "- 1"]) (simp_all add: powr_minus_divide round_even_def)
  show "fl (1 / 4) = Finite (1 / 4)"
    by (rule fl_eval [of "- 2"]) (simp_all add: powr_minus_divide round_even_def)
  show "fl (3 / 4) = Finite (3 / 4)"
    by (rule fl_eval [of "- 1"]) (simp_all add: powr_minus_divide round_even_def)
  show "fl (- 1) = Finite (- 1)"
    by (rule fl_eval [of 0]) (simp_all add: powr_minus_divide round_even_def)
qed

lemma fl_big: "fl (2 ^ 1023) = Finite (2 ^ 1023)" "fl (2 ^ 1023 + 2 ^ 1023) = PInf"
proof -
  show "fl (2 ^ 1023) = Finite (2 ^ 1023)"
    by (rule fl_eval [of 1023]) (simp_all add: powr_minus_divide round_even_def)
  have "ulp_exp (2 ^ 1023 + 2 ^ 1023) = 1024 - 52"
    by (rule ulp_exp_eq) simp_all
  then show "fl (2 ^ 1023 + 2 ^ 1023) = PInf"
    by (simp add: fl_def Let_def round_even_def)
qed

subsection \<open>Normalization\<close>

lemma member_le_sum_nonneg:
  assumes "\<forall>x\<in>set xs. 0 \<le> (x :: real)" and "a \<in> set xs"
  shows "a \<le> sum_list xs"
  using assms
proof (induction xs)
  case Nil
  then show ?case by simp
next
  case (Cons x xs)
  have "0 \<le> sum_list xs" using Cons.prems(1) by (intro sum_list_nonneg) simp
  then show ?case using Cons by auto
qed

lemma quotients_close:
  assumes "0 < s"
    and "\<forall>w\<in>set xs. is_finite w \<and> 0 \<le> val w \<and> val w / s \<le> 2"
  shows "list_all is_finite (map (\<lambda>w. fdiv w (Finite s)) xs)
       \<and> \<bar>sum_list (map val (map (\<lambda>w. fdiv w (Finite s)) xs)) - sum_list (map val xs) / s\<bar>
           \<le> (sum_list (map val xs) / s) / 2 ^ 53 + real (length xs) / 2 ^ 1075"
  using assms(2)
proof (induction xs)
  case Nil
  then show ?case by simp
next
  case (Cons w xs)
  obtain a where w: "w = Finite a" and a: "0 \<le> a" "a / s \<le> 2"
    using Cons.prems by (cases w) auto
  have "\<bar>a / s\<bar> \<le> 2 ^ 1023"
  proof -
    have "(2 :: real) \<le> 2 ^ 1023" by simp
    moreover have "0 \<le> a / s" using a(1) assms(1) by simp
    ultimately show ?thesis using a(2) by simp
  qed
  then obtain r where r: "fl (a / s) = Finite r"
      "\<bar>r - a / s\<bar> \<le> \<bar>a / s\<bar> / 2 ^ 53 + 1 / 2 ^ 1075"
    using fl_error by blast
  have q: "fdiv w (Finite s) = Finite r" using assms(1) r(1) by (simp add: w)
  have ih: "list_all is_finite (map (\<lambda>w. fdiv w (Finite s)) xs)
       \<and> \<bar>sum_list (map val (map (\<lambda>w. fdiv w (Finite s)) xs)) - sum_list (map val xs) / s\<bar>
           \<le> (sum_list (map val xs) / s) / 2 ^ 53 + real (length xs) / 2 ^ 1075"
    using Cons.IH Cons.prems by simp
  define out where "out = sum_list (map val (map (\<lambda>w. fdiv w (Finite s)) xs))"
  define T where "T = sum_list (map val xs)"
  have e1: "\<bar>r - a / s\<bar> \<le> (a / s) / 2 ^ 53 + 1 / 2 ^ 1075"
    using r(2) a(1) assms(1) by simp
  have e2: "\<bar>out - T / s\<bar> \<le> (T / s) / 2 ^ 53 + real (length xs) / 2 ^ 1075"
    using ih by (simp add: out_def T_def)
  have "\<bar>(r + out) - (a + T) / s\<bar> \<le> \<bar>r - a / s\<bar> + \<bar>out - T / s\<bar>"
    by (simp add: add_divide_distrib)
  also have "\<dots> \<le> ((a / s) / 2 ^ 53 + 1 / 2 ^ 1075)
                  + ((T / s) / 2 ^ 53 + real (length xs) / 2 ^ 1075)"
    using e1 e2 by (rule add_mono)
  also have "\<dots> = ((a + T) / s) / 2 ^ 53 + real (length (w # xs)) / 2 ^ 1075"
    by (simp add: add_divide_distrib)
  finally have "\<bar>(r + out) - (a + T) / s\<bar>
      \<le> ((a + T) / s) / 2 ^ 53 + real (length (w # xs)) / 2 ^ 1075" .
  then show ?case using ih q by (simp add: out_def T_def w)
qed

lemma positive_sum_close:
  assumes "\<forall>w\<in>set ws. is_finite w \<and> 0 \<le> val w"
    and "0 < s" and "\<bar>s - sum_list (map val ws)\<bar> \<le> s / (2 * 10 ^ 9)"
    and "length ws < 2 ^ 53"
  shows "list_all is_finite (map (\<lambda>w. fdiv w (Finite s)) ws)
       \<and> \<bar>sum_list (map val (map (\<lambda>w. fdiv w (Finite s)) ws)) - 1\<bar> \<le> 1 / 10 ^ 9"
proof -
  define T where "T = sum_list (map val ws)"
  define out where "out = sum_list (map val (map (\<lambda>w. fdiv w (Finite s)) ws))"
  have rel: "\<bar>T / s - 1\<bar> \<le> 1 / (2 * 10 ^ 9)"
  proof -
    have "T / s - 1 = (T - s) / s" using assms(2) by (simp add: field_simps)
    then have "\<bar>T / s - 1\<bar> = \<bar>s - T\<bar> / s" using assms(2) by (simp add: abs_minus_commute)
    also have "\<dots> \<le> (s / (2 * 10 ^ 9)) / s"
      using assms(2,3) by (intro divide_right_mono) (simp_all add: T_def)
    also have "\<dots> = 1 / (2 * 10 ^ 9)" using assms(2) by simp
    finally show ?thesis .
  qed
  have "(1 :: real) / (2 * 10 ^ 9) \<le> 1" by simp
  then have Ts: "T / s \<le> 2" using rel by linarith
  have Tnn: "0 \<le> T / s"
    using assms(1,2) unfolding T_def by (intro divide_nonneg_pos sum_list_nonneg) auto
  have each: "\<forall>w\<in>set ws. is_finite w \<and> 0 \<le> val w \<and> val w / s \<le> 2"
  proof
    fix w assume w: "w \<in> set ws"
    have "val w \<le> T"
      unfolding T_def using assms(1) w by (intro member_le_sum_nonneg) auto
    then have "val w / s \<le> T / s" using assms(2) by (simp add: divide_right_mono)
    then show "is_finite w \<and> 0 \<le> val w \<and> val w / s \<le> 2" using assms(1) w Ts by auto
  qed
  have q: "list_all is_finite (map (\<lambda>w. fdiv w (Finite s)) ws)"
      "\<bar>out - T / s\<bar> \<le> (T / s) / 2 ^ 53 + real (length ws) / 2 ^ 1075"
    using quotients_close [OF assms(2) each] by (simp_all add: out_def T_def)
  have nlt: "real (length ws) \<le> 2 ^ 53"
    using assms(4) by (metis less_imp_le of_nat_le_numeral_power_cancel_iff)
  have "\<bar>out - 1\<bar> \<le> \<bar>out - T / s\<bar> + \<bar>T / s - 1\<bar>" by simp
  also have "\<dots> \<le> ((T / s) / 2 ^ 53 + real (length ws) / 2 ^ 1075) + 1 / (2 * 10 ^ 9)"
    using q(2) rel by (rule add_mono)
  also have "\<dots> \<le> (2 / 2 ^ 53 + 2 ^ 53 / 2 ^ 1075) + 1 / (2 * 10 ^ 9)"
    using Ts nlt by (intro add_mono divide_right_mono) simp_all
  also have "\<dots> \<le> 1 / 10 ^ 9" by simp
  finally show ?thesis using q(1) by (simp add: out_def)
qed

text \<open>
  C1 (as amended). For every float64 array \<open>ws\<close> and every summation order, the
  normalization step returns an array of the same length. When the float sum is positive
  every component is divided by it; when the sum is zero, negative or NaN every component
  is the float \<open>1/n\<close>, the uniform vector. The components of the result sum to 1
  within \<open>10\<^sup>-\<^sup>9\<close> in the fallback case, for \<open>1 \<le> n < 2\<^sup>5\<^sup>3\<close>, and in the positive case
  whenever the components are finite and non-negative and the float sum is within the
  relative distance \<open>5 / 10\<^sup>1\<^sup>0\<close> of their exact sum.
\<close>

theorem normalize_f64_simplex:
  "length (normalize_f64 np_sum ws) = length ws
   \<and> (\<not> positive (np_sum ws) \<longrightarrow>
        normalize_f64 np_sum ws
          = replicate (length ws) (fdiv (Finite 1) (f64_of_nat (length ws))))
   \<and> (positive (np_sum ws) \<longrightarrow>
        normalize_f64 np_sum ws = map (\<lambda>w. fdiv w (np_sum ws)) ws)
   \<and> (\<not> positive (np_sum ws) \<and> ws \<noteq> [] \<and> length ws < 2 ^ 53 \<longrightarrow>
        list_all is_finite (normalize_f64 np_sum ws)
        \<and> \<bar>sum_list (map val (normalize_f64 np_sum ws)) - 1\<bar> \<le> 1 / 10 ^ 9)
   \<and> ((\<forall>w\<in>set ws. is_finite w \<and> 0 \<le> val w)
        \<and> is_finite (np_sum ws) \<and> 0 < val (np_sum ws)
        \<and> \<bar>val (np_sum ws) - sum_list (map val ws)\<bar> \<le> val (np_sum ws) / (2 * 10 ^ 9)
        \<and> length ws < 2 ^ 53 \<longrightarrow>
        list_all is_finite (normalize_f64 np_sum ws)
        \<and> \<bar>sum_list (map val (normalize_f64 np_sum ws)) - 1\<bar> \<le> 1 / 10 ^ 9)"
proof (intro conjI impI)
  show "length (normalize_f64 np_sum ws) = length ws"
    by (simp add: normalize_f64_def Let_def)
  show "normalize_f64 np_sum ws
          = replicate (length ws) (fdiv (Finite 1) (f64_of_nat (length ws)))"
    if "\<not> positive (np_sum ws)"
    using that by (simp add: normalize_f64_def Let_def map_replicate_const)
  show "normalize_f64 np_sum ws = map (\<lambda>w. fdiv w (np_sum ws)) ws"
    if "positive (np_sum ws)"
    using that by (simp add: normalize_f64_def Let_def)
  have fallback: "list_all is_finite (normalize_f64 np_sum ws)
        \<and> \<bar>sum_list (map val (normalize_f64 np_sum ws)) - 1\<bar> \<le> 1 / 10 ^ 9"
    if h: "\<not> positive (np_sum ws) \<and> ws \<noteq> [] \<and> length ws < 2 ^ 53"
  proof -
    obtain r where r: "fdiv (Finite 1) (f64_of_nat (length ws)) = Finite r"
        "\<bar>real (length ws) * r - 1\<bar> \<le> 1 / 10 ^ 9"
      using uniform_sum_close [of "length ws"] h by auto
    have "normalize_f64 np_sum ws = replicate (length ws) (Finite r)"
      using h r(1) by (simp add: normalize_f64_def Let_def map_replicate_const)
    then show ?thesis using r(2) by (simp add: list_all_iff sum_list_replicate)
  qed
  show "list_all is_finite (normalize_f64 np_sum ws)"
    if "\<not> positive (np_sum ws) \<and> ws \<noteq> [] \<and> length ws < 2 ^ 53"
    using fallback that by blast
  show "\<bar>sum_list (map val (normalize_f64 np_sum ws)) - 1\<bar> \<le> 1 / 10 ^ 9"
    if "\<not> positive (np_sum ws) \<and> ws \<noteq> [] \<and> length ws < 2 ^ 53"
    using fallback that by blast
  have accurate: "list_all is_finite (normalize_f64 np_sum ws)
        \<and> \<bar>sum_list (map val (normalize_f64 np_sum ws)) - 1\<bar> \<le> 1 / 10 ^ 9"
    if h: "(\<forall>w\<in>set ws. is_finite w \<and> 0 \<le> val w)
        \<and> is_finite (np_sum ws) \<and> 0 < val (np_sum ws)
        \<and> \<bar>val (np_sum ws) - sum_list (map val ws)\<bar> \<le> val (np_sum ws) / (2 * 10 ^ 9)
        \<and> length ws < 2 ^ 53"
  proof -
    obtain s where s: "np_sum ws = Finite s" using h by (cases "np_sum ws") auto
    have "normalize_f64 np_sum ws = map (\<lambda>w. fdiv w (Finite s)) ws"
      using h s by (simp add: normalize_f64_def Let_def)
    then show ?thesis
      using positive_sum_close [of ws s] h s by simp
  qed
  show "list_all is_finite (normalize_f64 np_sum ws)"
    if "(\<forall>w\<in>set ws. is_finite w \<and> 0 \<le> val w)
        \<and> is_finite (np_sum ws) \<and> 0 < val (np_sum ws)
        \<and> \<bar>val (np_sum ws) - sum_list (map val ws)\<bar> \<le> val (np_sum ws) / (2 * 10 ^ 9)
        \<and> length ws < 2 ^ 53"
    using accurate that by blast
  show "\<bar>sum_list (map val (normalize_f64 np_sum ws)) - 1\<bar> \<le> 1 / 10 ^ 9"
    if "(\<forall>w\<in>set ws. is_finite w \<and> 0 \<le> val w)
        \<and> is_finite (np_sum ws) \<and> 0 < val (np_sum ws)
        \<and> \<bar>val (np_sum ws) - sum_list (map val ws)\<bar> \<le> val (np_sum ws) / (2 * 10 ^ 9)
        \<and> length ws < 2 ^ 53"
    using accurate that by blast
qed

theorem normalize_f64_simplex_witness:
  "positive (np_sum_seq [Finite 1, Finite 3])
   \<and> normalize_f64 np_sum_seq [Finite 1, Finite 3] = [Finite (1 / 4), Finite (3 / 4)]
   \<and> \<bar>sum_list (map val (normalize_f64 np_sum_seq [Finite 1, Finite 3])) - 1\<bar> \<le> 1 / 10 ^ 9
   \<and> \<not> positive (np_sum_seq [Finite (- 1), Finite 1])
   \<and> normalize_f64 np_sum_seq [Finite (- 1), Finite 1] = [Finite (1 / 2), Finite (1 / 2)]
   \<and> \<bar>sum_list (map val (normalize_f64 np_sum_seq [Finite (- 1), Finite 1])) - 1\<bar>
       \<le> 1 / 10 ^ 9"
proof -
  have s1: "np_sum_seq [Finite 1, Finite 3] = Finite 4"
    by (simp add: np_sum_seq_pair fl_dyadic)
  have s2: "np_sum_seq [Finite (- 1), Finite 1] = Finite 0"
    by (simp add: np_sum_seq_pair fl_dyadic fl_zero)
  have v1: "normalize_f64 np_sum_seq [Finite 1, Finite 3] = [Finite (1 / 4), Finite (3 / 4)]"
    by (simp add: normalize_f64_def s1 fl_dyadic)
  have v2: "normalize_f64 np_sum_seq [Finite (- 1), Finite 1] = [Finite (1 / 2), Finite (1 / 2)]"
    by (simp add: normalize_f64_def s2 f64_of_nat_def fl_dyadic)
  have b1: "\<bar>sum_list (map val (normalize_f64 np_sum_seq [Finite 1, Finite 3])) - 1\<bar>
              \<le> 1 / 10 ^ 9"
  proof -
    have "(\<forall>w\<in>set [Finite 1, Finite 3]. is_finite w \<and> 0 \<le> val w)
        \<and> is_finite (np_sum_seq [Finite 1, Finite 3])
        \<and> 0 < val (np_sum_seq [Finite 1, Finite 3])
        \<and> \<bar>val (np_sum_seq [Finite 1, Finite 3]) - sum_list (map val [Finite 1, Finite 3])\<bar>
            \<le> val (np_sum_seq [Finite 1, Finite 3]) / (2 * 10 ^ 9)
        \<and> length [Finite 1, Finite 3] < 2 ^ 53"
      by (simp add: s1)
    then show ?thesis
      using normalize_f64_simplex [of np_sum_seq "[Finite 1, Finite 3]"] by blast
  qed
  have b2: "\<bar>sum_list (map val (normalize_f64 np_sum_seq [Finite (- 1), Finite 1])) - 1\<bar>
              \<le> 1 / 10 ^ 9"
  proof -
    have "\<not> positive (np_sum_seq [Finite (- 1), Finite 1])
        \<and> [Finite (- 1), Finite 1] \<noteq> [] \<and> length [Finite (- 1), Finite 1] < 2 ^ 53"
      by (simp add: s2)
    then show ?thesis
      using normalize_f64_simplex [of np_sum_seq "[Finite (- 1), Finite 1]"] by blast
  qed
  show ?thesis using s1 s2 v1 v2 b1 b2 by simp
qed

text \<open>
  C1, as written, fails. The array \<open>[1, 1]\<close> has the positive sum 2 and is normalized
  to the uniform vector; the sum of \<open>[2\<^sup>1\<^sup>0\<^sup>2\<^sup>3, 2\<^sup>1\<^sup>0\<^sup>2\<^sup>3]\<close> overflows to infinity, and
  the array is normalized to \<open>[0, 0]\<close>, whose components sum to 0.
\<close>

theorem normalize_f64_counterexample:
  "positive (np_sum_seq [Finite 1, Finite 1])
   \<and> normalize_f64 np_sum_seq [Finite 1, Finite 1]
       = replicate 2 (fdiv (Finite 1) (f64_of_nat 2))
   \<and> normalize_f64 np_sum_seq [Finite (2 ^ 1023), Finite (2 ^ 1023)] = [Finite 0, Finite 0]"
proof -
  have s: "np_sum_seq [Finite 1, Finite 1] = Finite 2"
    by (simp add: np_sum_seq_pair fl_dyadic)
  have b: "np_sum_seq [Finite (2 ^ 1023), Finite (2 ^ 1023)] = PInf"
    by (simp only: np_sum_seq_pair fl_big fadd.simps)
  have n: "normalize_f64 np_sum_seq [Finite (2 ^ 1023), Finite (2 ^ 1023)] = [Finite 0, Finite 0]"
    by (simp only: normalize_f64_def b Let_def positive.simps if_True list.map fdiv.simps)
  show ?thesis
    using n by (simp add: normalize_f64_def s f64_of_nat_def fl_dyadic numeral_2_eq_2)
qed

text \<open>
  C10 (as amended). Whenever the components of a normalized array add up, in float64, to
  exactly 1, normalizing it again returns the same array: for every array and every
  summation order.
\<close>

theorem normalize_f64_fixed_point:
  assumes "np_sum (normalize_f64 np_sum ws) = Finite 1"
  shows "normalize_f64 np_sum (normalize_f64 np_sum ws) = normalize_f64 np_sum ws"
proof -
  let ?v = "normalize_f64 np_sum ws"
  have "normalize_f64 np_sum ?v = map (\<lambda>w. fdiv w (Finite 1)) ?v"
    using assms by (simp add: normalize_f64_def [of np_sum ?v] Let_def)
  also have "\<dots> = map (\<lambda>w. w) ?v"
    using normalize_f64_is_f64 [of np_sum ws]
    by (intro map_cong) (simp_all add: list_all_iff fdiv_one)
  finally show ?thesis by simp
qed

theorem normalize_f64_fixed_point_witness:
  "np_sum_seq (normalize_f64 np_sum_seq [Finite 1, Finite 3]) = Finite 1
   \<and> normalize_f64 np_sum_seq (normalize_f64 np_sum_seq [Finite 1, Finite 3])
       = [Finite (1 / 4), Finite (3 / 4)]"
proof -
  have s: "np_sum_seq [Finite 1, Finite 3] = Finite 4"
    by (simp add: np_sum_seq_pair fl_dyadic)
  have v: "normalize_f64 np_sum_seq [Finite 1, Finite 3] = [Finite (1 / 4), Finite (3 / 4)]"
    by (simp add: normalize_f64_def s fl_dyadic)
  have one: "np_sum_seq (normalize_f64 np_sum_seq [Finite 1, Finite 3]) = Finite 1"
    by (simp add: v np_sum_seq_pair fl_dyadic)
  show ?thesis
    using normalize_f64_fixed_point
            [where np_sum = np_sum_seq and ws = "[Finite 1, Finite 3]", OF one] one v
    by simp
qed

text \<open>
  C10, as written, fails. For the float64 array \<open>[1 + 2\<^sup>-\<^sup>5\<^sup>1, 4]\<close> the normalized
  components add up to \<open>1 + 2\<^sup>-\<^sup>5\<^sup>2\<close>, and the second pass changes them.
\<close>

theorem normalize_f64_not_idempotent:
  "is_f64 (Finite (1 + 1 / 2 ^ 51)) \<and> is_f64 (Finite 4)
   \<and> normalize_f64 np_sum_seq (normalize_f64 np_sum_seq [Finite (1 + 1 / 2 ^ 51), Finite 4])
       \<noteq> normalize_f64 np_sum_seq [Finite (1 + 1 / 2 ^ 51), Finite 4]"
proof -
  define a :: real where "a = 1 + 1 / 2 ^ 51"
  define v0 :: real where "v0 = 7205759403792797 / 2 ^ 55"
  define v1 :: real where "v1 = 3602879701896397 / 2 ^ 52"
  define t :: real where "t = 1 + 1 / 2 ^ 52"
  define u0 :: real where "u0 = 7205759403792795 / 2 ^ 55"
  have r1: "fl a = Finite a"
    unfolding a_def by (rule fl_eval [of 0]) (simp_all add: powr_minus_divide round_even_def)
  have r2: "fl (a + 4) = Finite 5"
    unfolding a_def by (rule fl_eval [of 2]) (simp_all add: powr_minus_divide round_even_def)
  have r3: "fl (a / 5) = Finite v0"
    unfolding a_def v0_def
    by (rule fl_eval [of "- 3"]) (simp_all add: powr_minus_divide round_even_def)
  have r4: "fl (4 / 5) = Finite v1"
    unfolding v1_def
    by (rule fl_eval [of "- 1"]) (simp_all add: powr_minus_divide round_even_def)
  have r5: "fl v0 = Finite v0" using r3 by (rule fl_idempotent)
  have r6: "fl (v0 + v1) = Finite t"
    unfolding v0_def v1_def t_def
    by (rule fl_eval [of 0]) (simp_all add: powr_minus_divide round_even_def)
  have r7: "fl (v0 / t) = Finite u0"
    unfolding v0_def t_def u0_def
    by (rule fl_eval [of "- 3"]) (simp_all add: powr_minus_divide round_even_def)
  have tpos: "0 < t" by (simp add: t_def)
  have ne: "u0 \<noteq> v0" by (simp add: u0_def v0_def)
  have s1: "np_sum_seq [Finite a, Finite 4] = Finite 5"
    by (simp add: np_sum_seq_pair r1 r2)
  have n1: "normalize_f64 np_sum_seq [Finite a, Finite 4] = [Finite v0, Finite v1]"
    by (simp add: normalize_f64_def s1 r3 r4)
  have s2: "np_sum_seq [Finite v0, Finite v1] = Finite t"
    by (simp add: np_sum_seq_pair r5 r6)
  have n2: "hd (normalize_f64 np_sum_seq [Finite v0, Finite v1]) = Finite u0"
    using tpos by (simp add: normalize_f64_def s2 r7)
  have "normalize_f64 np_sum_seq (normalize_f64 np_sum_seq [Finite a, Finite 4])
       \<noteq> normalize_f64 np_sum_seq [Finite a, Finite 4]"
    using n2 ne by (auto simp add: n1)
  moreover have "is_f64 (Finite a)" using r1 by simp
  moreover have "is_f64 (Finite 4)" by (simp add: fl_dyadic)
  ultimately show ?thesis unfolding a_def by blast
qed

subsection \<open>The first maximum\<close>

lemma argmax_loop_inv:
  assumes "bi < length pre" and "b = pre ! bi"
    and "\<forall>j<length pre. pre ! j \<le> b" and "\<forall>j<bi. pre ! j < b"
  shows "let r = argmax_loop xs (length pre) bi b in
           r < length (pre @ xs) \<and> (\<forall>j<length (pre @ xs). (pre @ xs) ! j \<le> (pre @ xs) ! r)
           \<and> (\<forall>j<r. (pre @ xs) ! j < (pre @ xs) ! r)"
  using assms
proof (induction xs arbitrary: pre bi b)
  case Nil
  then show ?case by simp
next
  case (Cons x xs)
  show ?case
  proof (cases "x > b")
    case True
    have len: "length (pre @ [x]) = Suc (length pre)" by simp
    have a1: "length pre < length (pre @ [x])" by simp
    have a2: "x = (pre @ [x]) ! length pre" by simp
    have a3: "\<forall>j<length (pre @ [x]). (pre @ [x]) ! j \<le> x"
      using Cons.prems(3) True by (auto simp add: nth_append less_Suc_eq)
    have a4: "\<forall>j<length pre. (pre @ [x]) ! j < x"
      using Cons.prems(3) True by (auto simp add: nth_append)
    from Cons.IH [OF a1 a2 a3 a4] True show ?thesis by (simp add: Let_def)
  next
    case False
    have a1: "bi < length (pre @ [x])" using Cons.prems(1) by simp
    have a2: "b = (pre @ [x]) ! bi" using Cons.prems(1,2) by (simp add: nth_append)
    have a3: "\<forall>j<length (pre @ [x]). (pre @ [x]) ! j \<le> b"
      using Cons.prems(3) False by (auto simp add: nth_append less_Suc_eq)
    have a4: "\<forall>j<bi. (pre @ [x]) ! j < b"
      using Cons.prems(1,4) by (auto simp add: nth_append)
    from Cons.IH [OF a1 a2 a3 a4] False show ?thesis by (simp add: Let_def)
  qed
qed

lemma np_argmax_first_max:
  assumes "ys \<noteq> []"
  shows "\<exists>r. np_argmax ys = Inr r \<and> r < length ys \<and> (\<forall>j<length ys. ys ! j \<le> ys ! r)
           \<and> (\<forall>j<r. ys ! j < ys ! r)"
proof -
  obtain y rest where ys: "ys = y # rest" using assms by (cases ys) auto
  have "let r = argmax_loop rest (length [y]) 0 y in
           r < length ([y] @ rest) \<and> (\<forall>j<length ([y] @ rest). ([y] @ rest) ! j \<le> ([y] @ rest) ! r)
           \<and> (\<forall>j<r. ([y] @ rest) ! j < ([y] @ rest) ! r)"
    by (rule argmax_loop_inv) auto
  then show ?thesis by (simp add: ys np_argmax_def Let_def)
qed

subsection \<open>The sliding window\<close>

lemma py_slice_from_last:
  "0 < n \<Longrightarrow> py_slice_from (- n) xs = drop (length xs - nat n) xs"
  by (simp add: py_slice_from_def nat_diff_distrib' nat_add_distrib) 

lemma record_evaluation_history:
  assumes "0 < window_size s"
  shows "evaluation_history (record_evaluation s w sc) =
         drop (Suc (length (evaluation_history s)) - nat (window_size s))
           (evaluation_history s @ [(w, sc)])"
  using assms by (auto simp add: record_evaluation_def Let_def py_slice_from_last)

lemma record_evaluation_fields:
  "window_size (record_evaluation s w sc) = window_size s"
  "update_interval (record_evaluation s w sc) = update_interval s"
  "current_weights (record_evaluation s w sc) = current_weights s"
  "evaluation_count (record_evaluation s w sc) = evaluation_count s + 1"
  by (simp_all add: record_evaluation_def Let_def)

lemma record_all_fields:
  "window_size (record_all s evs) = window_size s"
  "current_weights (record_all s evs) = current_weights s"
  "evaluation_count (record_all s evs) = evaluation_count s + int (length evs)"
  unfolding record_all_def
  by (induction evs arbitrary: s) (simp_all add: record_evaluation_fields)

lemma window_step:
  "drop (length (drop (length xs - n) xs @ ys) - n) (drop (length xs - n) xs @ ys) =
   drop (length (xs @ ys) - n) (xs @ ys)"
proof (cases "length xs \<le> n")
  case True
  then show ?thesis by simp
next
  case False
  then have k: "length xs - (length xs - n) = n" by simp
  have "drop (length (drop (length xs - n) xs @ ys) - n) (drop (length xs - n) xs @ ys)
        = drop (length ys) (drop (length xs - n) xs @ ys)"
    by (simp add: k)
  also have "\<dots> = drop (length ys + (length xs - n)) xs @ drop (length ys - n) ys"
    by (simp add: k)
  also have "\<dots> = drop (length (xs @ ys) - n) (xs @ ys)"
    using False by (simp add: add.commute)
  finally show ?thesis .
qed

lemma record_all_history:
  assumes "0 < window_size s" and "int (length (evaluation_history s)) \<le> window_size s"
  shows "evaluation_history (record_all s evs) =
         drop (length (evaluation_history s @ evs) - nat (window_size s))
           (evaluation_history s @ evs)"
  using assms
proof (induction evs arbitrary: s)
  case Nil
  then show ?case by (simp add: record_all_def)
next
  case (Cons ev evs)
  let ?s1 = "record_evaluation s (fst ev) (snd ev)"
  have h1: "evaluation_history ?s1 =
      drop (Suc (length (evaluation_history s)) - nat (window_size s))
           (evaluation_history s @ [ev])"
    using record_evaluation_history [OF Cons.prems(1), of "fst ev" "snd ev"] by simp
  have w1: "0 < window_size ?s1" using Cons.prems(1) by (simp add: record_evaluation_fields)
  have l1: "int (length (evaluation_history ?s1)) \<le> window_size ?s1"
    using Cons.prems by (simp add: h1 record_evaluation_fields) 
  have "evaluation_history (record_all s (ev # evs)) = evaluation_history (record_all ?s1 evs)"
    by (simp add: record_all_def)
  also have "\<dots> = drop (length (evaluation_history ?s1 @ evs) - nat (window_size ?s1))
           (evaluation_history ?s1 @ evs)"
    by (rule Cons.IH [OF w1 l1])
  also have "\<dots> = drop (length (evaluation_history s @ ev # evs) - nat (window_size s))
           (evaluation_history s @ ev # evs)"
    using window_step [of "evaluation_history s @ [ev]" "nat (window_size s)" evs]
    by (simp add: h1 record_evaluation_fields)
  finally show ?case .
qed

subsection \<open>The online optimizer\<close>

lemma BayesianOptimizer_init_ab:
  "BayesianOptimizer_init bounds_ab True 42 = Inr opt_ab"
  by (simp add: BayesianOptimizer_init_def bounds_ab_def opt_ab_def Real_dim_def)

lemma online_init_ab:
  "OnlineBayesianOptimizer_init bounds_ab 5 2 (1 / 10) = Inr online_ab"
  by (simp add: OnlineBayesianOptimizer_init_def BayesianOptimizer_init_ab online_ab_def)
     (simp add: bounds_ab_def dict_of_def)

text \<open>
  C3 (as amended). \<^verbatim>\<open>should_update\<close> raises on a zero interval; otherwise it is
  true exactly when the evaluation count is a multiple of the interval, the count 0
  included.
\<close>

theorem should_update_multiple:
  "should_update self =
     (if update_interval self = 0 then Inl ZeroDivisionError
      else Inr (update_interval self dvd evaluation_count self))"
  by (simp add: should_update_def dvd_eq_mod_eq_0)

text \<open>
  C3, as written, fails on a fresh optimizer: the count is 0, no positive multiple,
  and \<^verbatim>\<open>should_update\<close> is true.
\<close>

theorem should_update_zero_counterexample:
  "OnlineBayesianOptimizer_init bounds_ab 5 2 (1 / 10) = Inr online_ab
   \<and> evaluation_count online_ab = 0
   \<and> should_update online_ab = Inr True
   \<and> should_update online_ab \<noteq>
       Inr (0 < evaluation_count online_ab
            \<and> update_interval online_ab dvd evaluation_count online_ab)"
  by (simp add: online_init_ab) (simp add: online_ab_def should_update_def)

text \<open>
  C2. The history is to hold at most \<open>window_size\<close> entries, the last ones recorded.
  With a window size of 0 the slice \<^verbatim>\<open>history[-0:]\<close> is the whole list: after two
  evaluations the history holds both. For a positive window size the property is
  \<open>record_all_history\<close> above.
\<close>

theorem window_zero_keeps_everything:
  "\<exists>s0. OnlineBayesianOptimizer_init bounds_ab 0 2 (1 / 10) = Inr s0
        \<and> window_size s0 = 0
        \<and> evaluation_history
             (record_all s0
                [([(''A'', 1 / 5), (''B'', 4 / 5)], 1), ([(''A'', 4 / 5), (''B'', 1 / 5)], 3)])
           = [([(''A'', 1 / 5), (''B'', 4 / 5)], 1), ([(''A'', 4 / 5), (''B'', 1 / 5)], 3)]"
  by (simp add: OnlineBayesianOptimizer_init_def BayesianOptimizer_init_ab record_all_def
      record_evaluation_def py_slice_from_def)

lemma online_init_fields:
  assumes "OnlineBayesianOptimizer_init bounds ws ui er = Inr s0"
  shows "evaluation_history s0 = []" and "evaluation_count s0 = 0"
    and "current_weights s0 = dict_of (map (\<lambda>s. (signal_id s, initial_weight s)) bounds)"
    and "window_size s0 = ws" and "update_interval s0 = ui"
  using assms by (auto simp add: OnlineBayesianOptimizer_init_def split: sum.splits)

text \<open>
  C6. After any sequence of evaluations recorded on a new optimizer: with an empty
  history \<^verbatim>\<open>get_best_weights\<close> returns the initial weights; otherwise it returns
  the weights of the entry at an index \<open>i\<close> whose score is the maximum of the window and
  is greater than every score before \<open>i\<close>.
\<close>

theorem get_best_weights_first_max:
  assumes "OnlineBayesianOptimizer_init bounds ws ui er = Inr s0"
    and "s = record_all s0 evs"
  shows "(evaluation_history s = [] \<longrightarrow>
            get_best_weights s = Inr (dict_of (map (\<lambda>b. (signal_id b, initial_weight b)) bounds)))
       \<and> (evaluation_history s \<noteq> [] \<longrightarrow>
            (\<exists>i<length (evaluation_history s).
               get_best_weights s = Inr (fst (evaluation_history s ! i))
               \<and> (\<forall>j<length (evaluation_history s).
                     snd (evaluation_history s ! j) \<le> snd (evaluation_history s ! i))
               \<and> (\<forall>j<i. snd (evaluation_history s ! j) < snd (evaluation_history s ! i))))"
proof (cases "evaluation_history s = []")
  case True
  have "current_weights s = dict_of (map (\<lambda>b. (signal_id b, initial_weight b)) bounds)"
    using assms by (simp add: record_all_fields online_init_fields)
  then show ?thesis using True by (simp add: get_best_weights_def)
next
  case False
  let ?h = "evaluation_history s"
  have ne: "map snd ?h \<noteq> []" using False by simp
  obtain r where r: "np_argmax (map snd ?h) = Inr r" "r < length (map snd ?h)"
      "\<forall>j<length (map snd ?h). map snd ?h ! j \<le> map snd ?h ! r"
      "\<forall>j<r. map snd ?h ! j < map snd ?h ! r"
    using np_argmax_first_max [OF ne] by blast
  have "get_best_weights s = Inr (fst (?h ! r))"
    using False r(1) by (simp add: get_best_weights_def)
  moreover have "\<forall>j<length ?h. snd (?h ! j) \<le> snd (?h ! r)"
    using r(2,3) by simp
  moreover have "\<forall>j<r. snd (?h ! j) < snd (?h ! r)"
    using r(2,4) by simp
  ultimately show ?thesis using False r(2) by auto
qed

theorem get_best_weights_witness:
  "OnlineBayesianOptimizer_init bounds_ab 5 2 (1 / 10) = Inr online_ab
   \<and> get_best_weights (record_all online_ab []) = Inr [(''A'', 1 / 2), (''B'', 1 / 2)]
   \<and> get_best_weights
        (record_all online_ab
           [([(''A'', 1 / 5), (''B'', 4 / 5)], 1), ([(''A'', 4 / 5), (''B'', 1 / 5)], 3),
            ([(''A'', 1 / 2), (''B'', 1 / 2)], 3)])
      = Inr [(''A'', 4 / 5), (''B'', 1 / 5)]"
  using get_best_weights_first_max [OF online_init_ab, of "record_all online_ab []" "[]"]
  by (simp add: online_init_ab)
     (simp add: online_ab_def record_all_def record_evaluation_def py_slice_from_def
        get_best_weights_def np_argmax_def)

subsection \<open>The batch run\<close>

lemma running_max_length: "length (running_max xs) = length xs"
  by (simp add: running_max_def)

lemma running_max_nth:
  "i < length xs \<Longrightarrow> running_max xs ! i = Max (set (take (Suc i) xs))"
  by (simp add: running_max_def)

lemma running_max_last:
  "xs \<noteq> [] \<Longrightarrow> last (running_max xs) = Max (set xs)"
  by (simp add: running_max_def last_map)

lemma running_max_snoc:
  "running_max (xs @ [x]) =
     running_max xs @ [if xs = [] then x else max x (Max (set xs))]"
proof -
  have "map (\<lambda>i. Max (set (take (Suc i) (xs @ [x])))) [0..<length xs]
        = map (\<lambda>i. Max (set (take (Suc i) xs))) [0..<length xs]"
    by (rule map_cong) auto
  moreover have "xs \<noteq> [] \<Longrightarrow> Max (insert x (set xs)) = max x (Max (set xs))"
    by simp
  ultimately show ?thesis by (simp add: running_max_def)
qed

lemma running_max_sorted: "sorted (running_max xs)"
proof (induction xs rule: rev_induct)
  case Nil
  then show ?case by (simp add: running_max_def)
next
  case (snoc x xs)
  have "\<forall>y\<in>set (running_max xs). y \<le> (if xs = [] then x else max x (Max (set xs)))"
  proof
    fix y assume "y \<in> set (running_max xs)"
    then obtain i where i: "i < length xs" "y = Max (set (take (Suc i) xs))"
      by (auto simp add: running_max_def)
    then have ne: "xs \<noteq> []" by auto
    have "set (take (Suc i) xs) \<subseteq> set xs" by (rule set_take_subset)
    moreover have "set (take (Suc i) xs) \<noteq> {}" using ne by (cases xs) auto
    ultimately have "Max (set (take (Suc i) xs)) \<le> Max (set xs)"
      by (intro Max_mono) simp_all
    then have "y \<le> Max (set xs)" using i(2) by simp
    then show "y \<le> (if xs = [] then x else max x (Max (set xs)))" using ne by simp
  qed
  then show ?case using snoc.IH by (simp add: running_max_snoc sorted_append)
qed

lemma wrapped_objective_tracked:
  assumes "tracked st" and "wrapped_objective self f x st = Inr (v, st')"
  shows "tracked st' \<and> length (all_scores st') = Suc (length (all_scores st))"
proof -
  obtain score where sc: "f (weights_to_dict self x) = Inr score"
    using assms(2) by (auto simp add: wrapped_objective_def Let_def split: sum.splits)
  let ?ch = "running_max (all_scores st)"
  have ch: "convergence_history st = ?ch" using assms(1) by (simp add: tracked_def)
  have scores: "all_scores st' = all_scores st @ [score]"
    using assms(2) sc by (auto simp add: wrapped_objective_def Let_def split: if_splits)
  have conv: "convergence_history st' =
      ?ch @ [if length ?ch = 0 \<or> score > last ?ch then score else last ?ch]"
    using assms(2) sc ch by (auto simp add: wrapped_objective_def Let_def split: if_splits)
  have "(if length ?ch = 0 \<or> score > last ?ch then score else last ?ch)
        = (if all_scores st = [] then score else max score (Max (set (all_scores st))))"
  proof (cases "all_scores st = []")
    case True
    then show ?thesis by (simp add: running_max_def)
  next
    case False
    define m where "m = Max (set (all_scores st))"
    have "last ?ch = m" unfolding m_def using False by (rule running_max_last)
    then show ?thesis
      unfolding m_def [symmetric] using False by (auto simp add: running_max_length max_def)
  qed
  then show ?thesis using scores conv by (simp add: tracked_def running_max_snoc)
qed

lemma gp_calls_tracked:
  assumes "tracked st"
    and "gp_calls propose (wrapped_objective self f) n obs st = Inr (obs', st')"
  shows "tracked st' \<and> length (all_scores st') = length (all_scores st) + n
         \<and> length obs' = length obs + n"
  using assms
proof (induction n arbitrary: obs st)
  case 0
  then show ?case by simp
next
  case (Suc n)
  obtain fx st1 where step: "wrapped_objective self f (propose obs) st = Inr (fx, st1)"
    and rest: "gp_calls propose (wrapped_objective self f) n (obs @ [(propose obs, fx)]) st1
               = Inr (obs', st')"
    using Suc.prems(2) by (auto simp add: Let_def split: sum.splits)
  have t1: "tracked st1 \<and> length (all_scores st1) = Suc (length (all_scores st))"
    using wrapped_objective_tracked [OF Suc.prems(1) step] .
  have "tracked st' \<and> length (all_scores st') = length (all_scores st1) + n
         \<and> length obs' = length (obs @ [(propose obs, fx)]) + n"
    using Suc.IH [OF _ rest] t1 by simp
  then show ?case using t1 by simp
qed

text \<open>
  C4. A batch run that returns has made at least one evaluation; its convergence history
  has one entry per score, entry \<open>i\<close> is the maximum of the scores \<open>0..i\<close>, the
  history is non-decreasing and its last entry is the maximum of all scores.
\<close>

theorem convergence_history_running_max:
  assumes "optimize self propose objective_fn n_calls = Inr r"
  shows "length (convergence_history r) = length (all_scores r)
       \<and> n_iterations r = length (all_scores r)
       \<and> (\<forall>i<length (all_scores r).
             convergence_history r ! i = Max (set (take (Suc i) (all_scores r))))
       \<and> sorted (convergence_history r)
       \<and> all_scores r \<noteq> []
       \<and> last (convergence_history r) = Max (set (all_scores r))"
proof -
  let ?st0 = "\<lparr>convergence_history = [], all_weights = [], all_scores = []\<rparr>"
  obtain obs st i where
      run: "gp_calls propose (wrapped_objective self objective_fn) (nat n_calls) [] ?st0
            = Inr (obs, st)"
    and am: "np_argmin (map snd obs) = Inr i"
    and r: "convergence_history r = convergence_history st" "all_scores r = all_scores st"
           "n_iterations r = length (all_scores st)"
    using assms
    by (auto simp add: optimize_def gp_minimize_def split: sum.splits prod.splits)
  have t0: "tracked ?st0" by (simp add: tracked_def running_max_def)
  have inv: "tracked st \<and> length (all_scores st) = length (all_scores ?st0) + nat n_calls
         \<and> length obs = length ([] :: (real list \<times> real) list) + nat n_calls"
    using gp_calls_tracked [OF t0 run] .
  have "obs \<noteq> []" using am by (auto simp add: np_argmin_def)
  then have ne: "all_scores st \<noteq> []" using inv by auto
  have ch: "convergence_history st = running_max (all_scores st)"
    using inv by (simp add: tracked_def)
  show ?thesis
    using ne by (simp add: r ch running_max_length running_max_nth running_max_sorted
        running_max_last)
qed

theorem convergence_history_witness:
  "optimize opt_ab propose_ab objective_a 3 =
     Inr \<lparr>convergence_history = [1 / 2, 1 / 2, 1 / 2],
          all_weights = [[(''A'', 1 / 2), (''B'', 1 / 2)], [(''A'', 1 / 4), (''B'', 3 / 4)],
                         [(''A'', 1 / 2), (''B'', 1 / 2)]],
          all_scores = [1 / 2, 1 / 4, 1 / 2],
          best_weights = [(''A'', 1 / 2), (''B'', 1 / 2)],
          best_score = 1 / 2, n_iterations = 3\<rparr>
   \<and> sorted [1 / 2, 1 / 2, 1 / 2 :: real]
   \<and> last [1 / 2, 1 / 2, 1 / 2 :: real] = Max (set [1 / 2, 1 / 4, 1 / 2])"
proof -
  have run: "optimize opt_ab propose_ab objective_a 3 =
     Inr \<lparr>convergence_history = [1 / 2, 1 / 2, 1 / 2],
          all_weights = [[(''A'', 1 / 2), (''B'', 1 / 2)], [(''A'', 1 / 4), (''B'', 3 / 4)],
                         [(''A'', 1 / 2), (''B'', 1 / 2)]],
          all_scores = [1 / 2, 1 / 4, 1 / 2],
          best_weights = [(''A'', 1 / 2), (''B'', 1 / 2)],
          best_score = 1 / 2, n_iterations = 3\<rparr>"
    by (simp add: optimize_def gp_minimize_def eval_nat_numeral Let_def propose_ab_def
        objective_a_def lookup_def wrapped_objective_def weights_to_dict_def opt_ab_def
        normalize_arr_def dict_of_def np_argmin_def)
  show ?thesis using convergence_history_running_max [OF run] run by simp
qed

text \<open>A run returns when the objective never raises and at least one call is asked for.\<close>

lemma wrapped_objective_returns:
  "objective_fn (weights_to_dict self x) = Inr score \<Longrightarrow>
   \<exists>st'. wrapped_objective self objective_fn x st = Inr (- score, st')"
  by (simp add: wrapped_objective_def Let_def)

lemma gp_calls_returns:
  assumes "\<forall>w. \<exists>score. objective_fn w = Inr score"
  shows "\<exists>obs' st'. gp_calls propose (wrapped_objective self objective_fn) n obs st
           = Inr (obs', st') \<and> length obs' = length obs + n"
proof (induction n arbitrary: obs st)
  case 0
  then show ?case by simp
next
  case (Suc n)
  obtain score where "objective_fn (weights_to_dict self (propose obs)) = Inr score"
    using assms by blast
  then obtain st1 where
    step: "wrapped_objective self objective_fn (propose obs) st = Inr (- score, st1)"
    using wrapped_objective_returns by blast
  obtain obs' st' where
    "gp_calls propose (wrapped_objective self objective_fn) n
       (obs @ [(propose obs, - score)]) st1 = Inr (obs', st')"
    "length obs' = length (obs @ [(propose obs, - score)]) + n"
    using Suc.IH by blast
  then show ?case using step by (simp add: Let_def)
qed

lemma optimize_returns:
  assumes "\<forall>w. \<exists>score. objective_fn w = Inr score" and "0 < n_calls"
  shows "\<exists>r. optimize self propose objective_fn n_calls = Inr r"
proof -
  let ?st0 = "\<lparr>convergence_history = [], all_weights = [], all_scores = []\<rparr>"
  obtain obs st where
    run: "gp_calls propose (wrapped_objective self objective_fn) (nat n_calls) [] ?st0
            = Inr (obs, st)"
    and len: "length obs = length ([] :: (real list \<times> real) list) + nat n_calls"
    using gp_calls_returns [OF assms(1)] by blast
  have "obs \<noteq> []" using len assms(2) by auto
  then obtain i where "np_argmin (map snd obs) = Inr i"
    by (cases obs) (simp_all add: np_argmin_def)
  then show ?thesis using run by (simp add: optimize_def gp_minimize_def)
qed

subsection \<open>Statistics\<close>

lemma foldl_max_Max: "foldl max x xs = Max (set (x # xs))"
proof (induction xs arbitrary: x)
  case Nil
  then show ?case by simp
next
  case (Cons y ys)
  have "foldl max x (y # ys) = Max (set (max x y # ys))" using Cons.IH by simp
  also have "\<dots> = Max (set (x # y # ys))"
    by (cases "ys = []") (simp_all add: max.assoc)
  finally show ?case .
qed

lemma np_max_Max: "xs \<noteq> [] \<Longrightarrow> np_max xs = Inr (Max (set xs))"
  by (cases xs) (simp_all add: np_max_def foldl_max_Max)




subsection \<open>Session creation\<close>

lemma traverse_Real_dim_fails:
  "\<exists>b\<in>set bounds. max_weight b \<le> min_weight b \<Longrightarrow>
   traverse (\<lambda>s. Real_dim (min_weight s) (max_weight s) (signal_id s)) bounds
     = Inl ValueError"
proof (induction bounds)
  case Nil
  then show ?case by simp
next
  case (Cons b bounds)
  show ?case
  proof (cases "max_weight b \<le> min_weight b")
    case True
    then show ?thesis by (simp add: Real_dim_def)
  next
    case False
    then have "\<exists>b\<in>set bounds. max_weight b \<le> min_weight b" using Cons.prems by auto
    then show ?thesis using Cons.IH False by (simp add: Real_dim_def)
  qed
qed

lemma traverse_Real_dim_succeeds:
  "\<forall>b\<in>set bounds. min_weight b < max_weight b \<Longrightarrow>
   traverse (\<lambda>s. Real_dim (min_weight s) (max_weight s) (signal_id s)) bounds
     = Inr (map (\<lambda>s. \<lparr>low = min_weight s, high = max_weight s, dim_name = signal_id s\<rparr>) bounds)"
  by (induction bounds) (auto simp add: Real_dim_def)

lemma bounds_copy: "map (\<lambda>b. \<lparr>signal_id = signal_id b, min_weight = min_weight b,
     max_weight = max_weight b, initial_weight = initial_weight b\<rparr>) bs = (bs :: SignalBounds list)"
  by (induction bs) simp_all

text \<open>
  C9 (as amended). Creation fails, and the registry is left as it was, when some bound
  has \<open>min_weight \<ge> max_weight\<close>: the constructor of the search-space dimension
  rejects it. When every bound has \<open>min_weight < max_weight\<close> the session is created
  and registered, whatever the initial weights are and also when there is no bound at
  all; its current weights are the initial weights as given.
\<close>

theorem create_optimizer_checks_intervals_only:
  "((\<exists>b\<in>set bounds. max_weight b \<le> min_weight b) \<longrightarrow>
      create_optimizer new_id bounds active = (Inl ValueError, active))
   \<and> ((\<forall>b\<in>set bounds. min_weight b < max_weight b) \<longrightarrow>
      (\<exists>opt. create_optimizer new_id bounds active =
          (Inr \<lparr>optimizer_id = new_id, response_signal_ids = map signal_id bounds,
                initial_weights =
                  dict_of (map (\<lambda>b. (signal_id b, initial_weight b)) bounds)\<rparr>,
           active(new_id \<mapsto> opt))
        \<and> current_weights opt = dict_of (map (\<lambda>b. (signal_id b, initial_weight b)) bounds)
        \<and> signal_bounds (optimizer opt) = bounds
        \<and> evaluation_history opt = [] \<and> evaluation_count opt = 0))"
proof (intro conjI impI)
  assume "\<exists>b\<in>set bounds. max_weight b \<le> min_weight b"
  then show "create_optimizer new_id bounds active = (Inl ValueError, active)"
    by (simp add: create_optimizer_def bounds_copy OnlineBayesianOptimizer_init_def
        BayesianOptimizer_init_def traverse_Real_dim_fails)
next
  assume "\<forall>b\<in>set bounds. min_weight b < max_weight b"
  then show "\<exists>opt. create_optimizer new_id bounds active =
          (Inr \<lparr>optimizer_id = new_id, response_signal_ids = map signal_id bounds,
                initial_weights =
                  dict_of (map (\<lambda>b. (signal_id b, initial_weight b)) bounds)\<rparr>,
           active(new_id \<mapsto> opt))
        \<and> current_weights opt = dict_of (map (\<lambda>b. (signal_id b, initial_weight b)) bounds)
        \<and> signal_bounds (optimizer opt) = bounds
        \<and> evaluation_history opt = [] \<and> evaluation_count opt = 0"
    by (auto simp add: create_optimizer_def bounds_copy OnlineBayesianOptimizer_init_def
        BayesianOptimizer_init_def traverse_Real_dim_succeeds)
qed

theorem create_optimizer_witness:
  "create_optimizer ''s1''
     [\<lparr>signal_id = ''A'', min_weight = 1, max_weight = 0, initial_weight = 1 / 2\<rparr>]
     Map.empty = (Inl ValueError, Map.empty)
   \<and> fst (create_optimizer ''s1'' bounds_ab Map.empty) =
       Inr \<lparr>optimizer_id = ''s1'', response_signal_ids = [''A'', ''B''],
            initial_weights = [(''A'', 1 / 2), (''B'', 1 / 2)]\<rparr>
   \<and> snd (create_optimizer ''s1'' bounds_ab Map.empty) ''s1'' \<noteq> None"
  using create_optimizer_checks_intervals_only
          [of "[\<lparr>signal_id = ''A'', min_weight = 1, max_weight = 0, initial_weight = 1 / 2\<rparr>]"
              "''s1''" Map.empty]
        create_optimizer_checks_intervals_only [of bounds_ab "''s1''" Map.empty]
  by (auto simp add: bounds_ab_def dict_of_def)

text \<open>
  C9, as written, fails: an empty signal set, and an initial weight outside its
  bounds, are both accepted, and the session is registered.
\<close>

theorem create_optimizer_invalid_counterexample:
  "fst (create_optimizer ''s1'' [] Map.empty) =
      Inr \<lparr>optimizer_id = ''s1'', response_signal_ids = [], initial_weights = []\<rparr>
   \<and> snd (create_optimizer ''s1'' [] Map.empty) ''s1'' \<noteq> None
   \<and> fst (create_optimizer ''s2'' bounds_outside Map.empty) =
      Inr \<lparr>optimizer_id = ''s2'', response_signal_ids = [''A''],
           initial_weights = [(''A'', 5)]\<rparr>
   \<and> snd (create_optimizer ''s2'' bounds_outside Map.empty) ''s2'' \<noteq> None"
  by (simp add: create_optimizer_def OnlineBayesianOptimizer_init_def
      BayesianOptimizer_init_def Real_dim_def bounds_outside_def dict_of_def)

subsection \<open>Random points\<close>

lemma uniform_within:
  assumes "0 \<le> u" and "u < 1" and "lo \<le> (hi :: real)"
  shows "lo \<le> lo + (hi - lo) * u \<and> lo + (hi - lo) * u \<le> hi"
proof -
  have a: "0 \<le> (hi - lo) * u" using assms by simp
  have "(hi - lo) * u \<le> (hi - lo) * 1"
    using assms by (intro mult_left_mono) simp_all
  then show ?thesis using a by simp
qed

lemma random_point_props:
  assumes "random_point g bounds pos = (ws, pos')"
  shows "pos' = pos + length bounds \<and> length ws = length bounds
       \<and> (unit_samples g \<longrightarrow> (\<forall>b\<in>set bounds. min_weight b \<le> max_weight b) \<longrightarrow>
            raw_within bounds ws)"
  using assms
proof (induction bounds arbitrary: pos ws pos')
  case Nil
  then show ?case by (simp add: raw_within_def)
next
  case (Cons s ss)
  obtain rest where rest: "random_point g ss (Suc pos) = (rest, pos')"
    and ws: "ws = (min_weight s + (max_weight s - min_weight s) * g pos) # rest"
    using Cons.prems by (auto simp add: np_random_uniform_def split: prod.splits)
  have ih: "pos' = Suc pos + length ss \<and> length rest = length ss
       \<and> (unit_samples g \<longrightarrow> (\<forall>b\<in>set ss. min_weight b \<le> max_weight b) \<longrightarrow>
            raw_within ss rest)"
    using Cons.IH [OF rest] .
  have "unit_samples g \<Longrightarrow> min_weight s \<le> max_weight s \<Longrightarrow>
        min_weight s \<le> min_weight s + (max_weight s - min_weight s) * g pos
        \<and> min_weight s + (max_weight s - min_weight s) * g pos \<le> max_weight s"
    by (intro uniform_within) (simp_all add: unit_samples_def)
  then show ?case using ih ws by (simp add: raw_within_def)
qed












subsection \<open>Model-guided suggestions\<close>

lemma random_candidates_props:
  assumes "random_candidates g bounds n pos = (cs, pos')"
  shows "length cs = n \<and> pos' = pos + n * length bounds"
  using assms
proof (induction n arbitrary: pos cs pos')
  case 0
  then show ?case by simp
next
  case (Suc n)
  obtain c p1 rest where c: "random_point g bounds pos = (c, p1)"
    and rest: "random_candidates g bounds n p1 = (rest, pos')" and cs: "cs = c # rest"
    using Suc.prems by (auto split: prod.splits)
  have "p1 = pos + length bounds" using random_point_props [OF c] by simp
  then show ?case using Suc.IH [OF rest] cs by simp
qed

lemma random_candidates_fst:
  "length (fst (random_candidates g bounds n pos)) = n"
  "snd (random_candidates g bounds n pos) = pos + n * length bounds"
  using random_candidates_props [of g bounds n pos] by (auto simp add: prod_eq_iff)

lemma ei_suggestions_spec:
  assumes "y \<noteq> []"
  shows "\<exists>sugs.
           ei_suggestions self gp norm_cdf norm_pdf g y n pos =
             Inr (sugs, pos + n * (n_candidates * length (signal_bounds self)))
         \<and> length sugs = n
         \<and> (\<forall>k<n. first_ei_maximum self gp norm_cdf norm_pdf (Max (set y))
                     (fst (random_candidates g (signal_bounds self) n_candidates
                        (pos + k * (n_candidates * length (signal_bounds self)))))
                     (sugs ! k))"
proof (induction n arbitrary: pos)
  case 0
  then show ?case by simp
next
  case (Suc n)
  let ?d = "n_candidates * length (signal_bounds self)"
  obtain pool where pool:
      "random_candidates g (signal_bounds self) n_candidates pos = (pool, pos + ?d)"
    by (simp add: prod_eq_iff random_candidates_fst)
  let ?pool = pool
  let ?ei = "map (\<lambda>c. expected_improvement norm_cdf norm_pdf (Max (set y)) (gp c)) ?pool"
  have len: "length ?pool = n_candidates"
    using random_candidates_props [OF pool] by simp
  have mx: "np_max y = Inr (Max (set y))" using assms by (rule np_max_Max)
  have "?ei \<noteq> []" using len by (auto simp add: n_candidates_def)
  then obtain r where r: "np_argmax ?ei = Inr r" "r < length ?ei"
      "\<forall>j<length ?ei. ?ei ! j \<le> ?ei ! r" "\<forall>j<r. ?ei ! j < ?ei ! r"
    using np_argmax_first_max [of ?ei] by blast
  obtain rest where rest:
      "ei_suggestions self gp norm_cdf norm_pdf g y n (pos + ?d) =
         Inr (rest, pos + ?d + n * ?d)"
      "length rest = n"
      "\<forall>k<n. first_ei_maximum self gp norm_cdf norm_pdf (Max (set y))
                     (fst (random_candidates g (signal_bounds self) n_candidates
                        (pos + ?d + k * ?d)))
                     (rest ! k)"
    using Suc.IH [of "pos + ?d"] by blast
  let ?sug = "weights_to_dict self (?pool ! r)"
  have run: "ei_suggestions self gp norm_cdf norm_pdf g y (Suc n) pos =
             Inr (?sug # rest, pos + Suc n * ?d)"
    using pool mx r(1) rest(1) by (simp add: Let_def add.assoc)
  have first: "first_ei_maximum self gp norm_cdf norm_pdf (Max (set y)) ?pool ?sug"
    unfolding first_ei_maximum_def
  proof (intro exI [of _ r] conjI)
    show "r < length ?pool" using r(2) by simp
    show "?sug = weights_to_dict self (?pool ! r)" by simp
    show "\<forall>j<length ?pool.
            expected_improvement norm_cdf norm_pdf (Max (set y)) (gp (?pool ! j))
            \<le> expected_improvement norm_cdf norm_pdf (Max (set y)) (gp (?pool ! r))"
      using r(2,3) by simp
    show "\<forall>j<r. expected_improvement norm_cdf norm_pdf (Max (set y)) (gp (?pool ! j))
            < expected_improvement norm_cdf norm_pdf (Max (set y)) (gp (?pool ! r))"
      using r(2,4) by simp
  qed
  have all: "first_ei_maximum self gp norm_cdf norm_pdf (Max (set y))
                     (fst (random_candidates g (signal_bounds self) n_candidates
                        (pos + k * ?d)))
                     ((?sug # rest) ! k)" if "k < Suc n" for k
  proof (cases k)
    case 0
    then show ?thesis using first pool by simp
  next
    case (Suc k')
    then have "k' < n" using that by simp
    then show ?thesis using rest(3) Suc by (simp add: add.assoc)
  qed
  show ?case using run rest(2) all by (intro exI [of _ "?sug # rest"]) simp
qed

text \<open>
  C7. With at least three evaluated points that carry every signal id, and a regressor
  fitted on them, \<^verbatim>\<open>suggest_next\<close> returns one suggestion per round. Each round
  draws a pool of 1000 candidates and scores a candidate with mean \<open>m\<close> and deviation
  \<open>sd\<close> by \<open>sd * (z * \<Phi> z + \<phi> z)\<close>, where \<open>z = (m - best_y) / (sd + 10\<^sup>-\<^sup>8)\<close> and
  \<open>best_y\<close> is the maximum observed score; the suggestion is the dictionary of the
  candidate at the first index whose score is the maximum over the pool.
\<close>

theorem suggest_next_expected_improvement:
  assumes "3 \<le> length evaluated_points"
    and "traverse (\<lambda>p. traverse (lookup (fst p)) (signal_ids self)) evaluated_points = Inr X"
    and "fit X (map snd evaluated_points) = Inr gp"
  shows "\<exists>sugs.
           suggest_next self fit norm_cdf norm_pdf g evaluated_points n pos =
             Inr (sugs, pos + nat n * (1000 * length (signal_bounds self)))
         \<and> length sugs = nat n
         \<and> (\<forall>k<nat n.
              let pool = fst (random_candidates g (signal_bounds self) 1000
                                (pos + k * (1000 * length (signal_bounds self))));
                  best_y = Max (snd ` set evaluated_points);
                  ei = (\<lambda>c. let mean = fst (gp c); stdev = snd (gp c);
                                z = (mean - best_y) / (stdev + 1 / 10 ^ 8)
                            in stdev * (z * norm_cdf z + norm_pdf z))
              in length pool = 1000
                 \<and> (\<exists>i<1000. sugs ! k = weights_to_dict self (pool ! i)
                       \<and> (\<forall>j<1000. ei (pool ! j) \<le> ei (pool ! i))
                       \<and> (\<forall>j<i. ei (pool ! j) < ei (pool ! i))))"
proof -
  let ?y = "map snd evaluated_points"
  have ne: "?y \<noteq> []" using assms(1) by auto
  have run: "suggest_next self fit norm_cdf norm_pdf g evaluated_points n pos =
             ei_suggestions self gp norm_cdf norm_pdf g ?y (nat n) pos"
    using assms by (simp add: suggest_next_def)
  have len: "length (fst (random_candidates g (signal_bounds self) 1000 p)) = 1000" for p
    by (simp add: random_candidates_fst)
  show ?thesis
    using ei_suggestions_spec [OF ne, of self gp norm_cdf norm_pdf g "nat n" pos]
    by (simp add: run first_ei_maximum_def expected_improvement_def n_candidates_def
        Let_def len)
qed

lemma random_point_ab: "random_point half_rng bounds_ab pos = ([1 / 2, 1 / 2], Suc (Suc pos))"
  by (simp add: bounds_ab_def np_random_uniform_def half_rng_def)

lemma random_candidates_ab:
  "random_candidates half_rng bounds_ab n pos = (replicate n [1 / 2, 1 / 2], pos + 2 * n)"
  by (induction n arbitrary: pos) (simp_all add: random_point_ab)

theorem suggest_next_expected_improvement_witness:
  "3 \<le> length points_ab
   \<and> traverse (\<lambda>p. traverse (lookup (fst p)) (signal_ids opt_ab)) points_ab
       = Inr [[1 / 5, 4 / 5], [4 / 5, 1 / 5], [1 / 2, 1 / 2]]
   \<and> flat_fit [[1 / 5, 4 / 5], [4 / 5, 1 / 5], [1 / 2, 1 / 2]] (map snd points_ab)
       = Inr (\<lambda>c. (0, 0))
   \<and> suggest_next opt_ab flat_fit zero_fn zero_fn half_rng points_ab 1 0
       = Inr ([[(''A'', 1 / 2), (''B'', 1 / 2)]], 2000)"
proof -
  have a1: "3 \<le> length points_ab" by (simp add: points_ab_def)
  have a2: "traverse (\<lambda>p. traverse (lookup (fst p)) (signal_ids opt_ab)) points_ab
       = Inr [[1 / 5, 4 / 5], [4 / 5, 1 / 5], [1 / 2, 1 / 2]]"
    by (simp add: points_ab_def opt_ab_def lookup_def)
  have a3: "flat_fit [[1 / 5, 4 / 5], [4 / 5, 1 / 5], [1 / 2, 1 / 2]] (map snd points_ab)
       = Inr (\<lambda>c. (0, 0))"
    by (simp add: flat_fit_def)
  have sb: "signal_bounds opt_ab = bounds_ab" by (simp add: opt_ab_def)
  obtain sugs i where
      run: "suggest_next opt_ab flat_fit zero_fn zero_fn half_rng points_ab 1 0 =
              Inr (sugs, 0 + nat 1 * (1000 * length (signal_bounds opt_ab)))"
    and len: "length sugs = nat 1"
    and i: "i < 1000"
      "sugs ! 0 = weights_to_dict opt_ab
         (fst (random_candidates half_rng bounds_ab 1000 0) ! i)"
    using suggest_next_expected_improvement
            [where self = opt_ab and fit = flat_fit and evaluated_points = points_ab
               and gp = "\<lambda>c. (0, 0)" and g = half_rng and n = 1 and pos = 0
               and norm_cdf = zero_fn and norm_pdf = zero_fn, OF a1 a2 a3]
    by (auto simp add: Let_def sb)
  have "sugs ! 0 = [(''A'', 1 / 2), (''B'', 1 / 2)]"
    using i by (simp add: random_candidates_ab)
       (simp add: weights_to_dict_def opt_ab_def normalize_arr_def dict_of_def)
  then have "sugs = [[(''A'', 1 / 2), (''B'', 1 / 2)]]"
    using len by (cases sugs) simp_all
  then show ?thesis using a1 a2 a3 run by (simp add: sb bounds_ab_def)
qed

end
